theory Spec2Isabelle
  imports Complex_Main "HOL-Library.Log_Nat"
begin

section \<open>Go's float64\<close>

text \<open>
  The source computes on Go's \<^verbatim>\<open>float64\<close> (IEEE 754 binary64, round to nearest, ties to
  even). A value is a NaN, an infinity with its sign, or a finite number: a sign
  (\<open>True\<close> for negative) and a magnitude, a non-negative rational. Both zeros exist.
  Every arithmetic operation computes the exact rational result and rounds it once;
  operations are not fused.
\<close>

datatype f64 = NaN | Inf bool | Fin bool rat

text \<open>Powers of two with an integer exponent.\<close>

definition pow2 :: "int \<Rightarrow> rat" where
  "pow2 k = 2 powi k"

text \<open>The integer part of the binary logarithm of a positive rational.\<close>

definition ilog2 :: "rat \<Rightarrow> int" where
  "ilog2 q = (let k = bitlen (fst (quotient_of q)) - bitlen (snd (quotient_of q))
              in if pow2 k \<le> q then k else k - 1)"

text \<open>Rounding a rational to an integer, a tie going to the even neighbour.\<close>

definition rhe :: "rat \<Rightarrow> int" where
  "rhe r = (let f = \<lfloor>r\<rfloor>; d = r - of_int f
            in if d < 1 / 2 then f
               else if 1 / 2 < d then f + 1
               else if even f then f else f + 1)"

text \<open>
  Rounding a magnitude \<open>q \<ge> 0\<close> to binary64: 53 significant bits, the least exponent
  \<open>-1022\<close> (below it the spacing stays \<open>pow2 (-1074)\<close>: subnormal numbers), overflow to
  infinity when the rounded magnitude reaches \<open>pow2 1024\<close>.
\<close>

definition rnd :: "bool \<Rightarrow> rat \<Rightarrow> f64" where
  "rnd s q =
     (if q = 0 then Fin s 0
      else let e = max (ilog2 q) (- 1022);
               u = pow2 (e - 52);
               n = rhe (q / u)
           in if 1023 < e \<or> (e = 1023 \<and> n = 2 ^ 53) then Inf s else Fin s (of_int n * u))"

text \<open>A constant of the source, or an integer, converted to float64.\<close>

definition lit :: "rat \<Rightarrow> f64" where
  "lit r = rnd (r < 0) \<bar>r\<bar>"

definition f64_of_nat :: "nat \<Rightarrow> f64" where
  "f64_of_nat i = lit (of_nat i)"

text \<open>The values a float64 can hold: a finite magnitude is one that rounding leaves alone.\<close>

fun is_f64 :: "f64 \<Rightarrow> bool" where
  "is_f64 (Fin s q) = (0 \<le> q \<and> rnd s q = Fin s q)"
| "is_f64 _ = True"

definition sval :: "bool \<Rightarrow> rat \<Rightarrow> rat" where
  "sval s q = (if s then - q else q)"

fun fneg :: "f64 \<Rightarrow> f64" where
  "fneg NaN = NaN"
| "fneg (Inf s) = Inf (\<not> s)"
| "fneg (Fin s q) = Fin (\<not> s) q"

fun fabs :: "f64 \<Rightarrow> f64" where
  "fabs NaN = NaN"
| "fabs (Inf s) = Inf False"
| "fabs (Fin s q) = Fin False q"

fun fadd :: "f64 \<Rightarrow> f64 \<Rightarrow> f64" where
  "fadd NaN b = NaN"
| "fadd a NaN = NaN"
| "fadd (Inf s) (Inf t) = (if s = t then Inf s else NaN)"
| "fadd (Inf s) (Fin t b) = Inf s"
| "fadd (Fin s a) (Inf t) = Inf t"
| "fadd (Fin s a) (Fin t b) =
     (let r = sval s a + sval t b
      in if r = 0 then Fin (s \<and> t) 0 else rnd (r < 0) \<bar>r\<bar>)"

definition fsub :: "f64 \<Rightarrow> f64 \<Rightarrow> f64" where
  "fsub a b = fadd a (fneg b)"

fun fmul :: "f64 \<Rightarrow> f64 \<Rightarrow> f64" where
  "fmul NaN b = NaN"
| "fmul a NaN = NaN"
| "fmul (Inf s) (Inf t) = Inf (s \<noteq> t)"
| "fmul (Inf s) (Fin t b) = (if b = 0 then NaN else Inf (s \<noteq> t))"
| "fmul (Fin s a) (Inf t) = (if a = 0 then NaN else Inf (s \<noteq> t))"
| "fmul (Fin s a) (Fin t b) = rnd (s \<noteq> t) (a * b)"

text \<open>Division never traps: a zero divisor gives an infinity, or NaN for \<open>0 / 0\<close>.\<close>

fun fdiv :: "f64 \<Rightarrow> f64 \<Rightarrow> f64" where
  "fdiv NaN b = NaN"
| "fdiv a NaN = NaN"
| "fdiv (Inf s) (Inf t) = NaN"
| "fdiv (Inf s) (Fin t b) = Inf (s \<noteq> t)"
| "fdiv (Fin s a) (Inf t) = Fin (s \<noteq> t) 0"
| "fdiv (Fin s a) (Fin t b) =
     (if b = 0 then (if a = 0 then NaN else Inf (s \<noteq> t))
      else rnd (s \<noteq> t) (a / b))"

text \<open>The comparisons \<^verbatim>\<open><\<close>, \<^verbatim>\<open>>\<close>, \<^verbatim>\<open><=\<close>, \<^verbatim>\<open>==\<close>: false whenever an operand is NaN.\<close>

fun flt :: "f64 \<Rightarrow> f64 \<Rightarrow> bool" where
  "flt NaN b = False"
| "flt a NaN = False"
| "flt (Inf s) (Inf t) = (s \<and> \<not> t)"
| "flt (Inf s) (Fin t b) = s"
| "flt (Fin s a) (Inf t) = (\<not> t)"
| "flt (Fin s a) (Fin t b) = (sval s a < sval t b)"

definition fgt :: "f64 \<Rightarrow> f64 \<Rightarrow> bool" where
  "fgt a b = flt b a"

fun feq :: "f64 \<Rightarrow> f64 \<Rightarrow> bool" where
  "feq (Inf s) (Inf t) = (s = t)"
| "feq (Fin s a) (Fin t b) = (sval s a = sval t b)"
| "feq a b = False"

definition fle :: "f64 \<Rightarrow> f64 \<Rightarrow> bool" where
  "fle a b = (flt a b \<or> feq a b)"

text \<open>
  \<^verbatim>\<open>math.Max\<close>: \<open>+Inf\<close> if an argument is \<open>+Inf\<close>, else NaN if one is NaN; of two zeros
  the positive one.
\<close>

definition fmax :: "f64 \<Rightarrow> f64 \<Rightarrow> f64" where
  "fmax a b =
     (if a = Inf False \<or> b = Inf False then Inf False
      else if a = NaN \<or> b = NaN then NaN
      else if feq a (Fin False 0) \<and> feq a b then (if a = Fin True 0 then b else a)
      else if fgt a b then a else b)"

text \<open>The integer square root, for the correctly rounded \<^verbatim>\<open>math.Sqrt\<close>.\<close>

fun isqrt :: "nat \<Rightarrow> nat" where
  "isqrt n =
     (if n < 2 then n
      else let r = 2 * isqrt (n div 4)
           in if (r + 1) * (r + 1) \<le> n then r + 1 else r)"

declare isqrt.simps [simp del]

definition sqrt_rnd :: "rat \<Rightarrow> rat" where
  "sqrt_rnd q =
     (let e = ilog2 q div 2;
          u = pow2 (e - 52);
          t = q / (u * u);
          f = int (isqrt (nat \<lfloor>t\<rfloor>));
          h = (of_int f + 1 / 2) * (of_int f + 1 / 2);
          n = (if t < h then f else if h < t then f + 1 else if even f then f else f + 1)
      in of_int n * u)"

fun fsqrt :: "f64 \<Rightarrow> f64" where
  "fsqrt NaN = NaN"
| "fsqrt (Inf s) = (if s then NaN else Inf False)"
| "fsqrt (Fin s q) = (if q = 0 then Fin s 0 else if s then NaN else Fin False (sqrt_rnd q))"

section \<open>What the file takes from outside\<close>

text \<open>
  \<^verbatim>\<open>LnGamma\<close> (the source's log-gamma function) and \<^verbatim>\<open>Beta_PDF\<close> are functions of the
  package that \<^verbatim>\<open>betainv.go\<close> calls and does not define; \<^verbatim>\<open>math.Exp\<close>, \<^verbatim>\<open>math.Log\<close> and
  \<^verbatim>\<open>math.Pow\<close> are library functions whose rounding is not fixed. They are parameters of
  the model: any functions on float64 that return.
\<close>

record ext =
  LnGamma :: "f64 \<Rightarrow> f64"
  Beta_PDF :: "f64 \<Rightarrow> f64 \<Rightarrow> f64 \<Rightarrow> f64"
  math_Exp :: "f64 \<Rightarrow> f64"
  math_Log :: "f64 \<Rightarrow> f64"
  math_Pow :: "f64 \<Rightarrow> f64 \<Rightarrow> f64"

text \<open>The panics of the file, by their place.\<close>

datatype panic =
  CF_no_convergence  \<comment> \<open>betaContinuedFraction(): alpha or beta too big, or maxIter too small\<close>
| P_out_of_range     \<comment> \<open>p must be in range 0 < p < 1\<close>
| Alpha_negative     \<comment> \<open>alpha < 0\<close>
| Beta_negative      \<comment> \<open>beta < 0\<close>

section \<open>bisect\<close>

text \<open>
  The loop of \<^verbatim>\<open>bisect\<close> has no bound of its own, so it is a partial function: \<open>None\<close>
  stands for a loop that never ends. \<^verbatim>\<open>x0\<close>, \<^verbatim>\<open>x1\<close> and \<^verbatim>\<open>px\<close> start at Go's zero
  value. The function the source names \<^verbatim>\<open>cdf\<close> is \<^verbatim>\<open>Beta_PDF(a, b)\<close>.
\<close>

partial_function (option) bisect_loop ::
  "(f64 \<Rightarrow> f64) \<Rightarrow> f64 \<Rightarrow> f64 \<Rightarrow> f64 \<Rightarrow> f64 \<Rightarrow> f64 \<Rightarrow> f64 \<Rightarrow> f64 option" where
  "bisect_loop cdf p xtol ptol x x0 x1 =
     (if fgt (fabs (fsub x1 x0)) xtol then
        (if flt (fabs (fsub (cdf x) p)) ptol then Some x
         else if flt (cdf x) p then
           bisect_loop cdf p xtol ptol (fmul (lit (1 / 2)) (fadd x x1)) x x1
         else if fgt (cdf x) p then
           bisect_loop cdf p xtol ptol (fmul (lit (1 / 2)) (fadd x0 x)) x0 x
         else bisect_loop cdf p xtol ptol (fmul (lit (1 / 2)) (fadd x0 x1)) x0 x1)
      else Some x)"

definition bisect :: "ext \<Rightarrow> f64 \<Rightarrow> f64 \<Rightarrow> f64 \<Rightarrow> f64 \<Rightarrow> f64 \<Rightarrow> f64 \<Rightarrow> f64 option" where
  "bisect E x p a b xtol ptol = bisect_loop (Beta_PDF E a b) p xtol ptol x (lit 0) (lit 0)"

section \<open>betaContinuedFraction\<close>

text \<open>
  Beside its result the model returns the divisor of every division the run performs, in
  order, each with its place: the reciprocal \<^verbatim>\<open>1.0 / d\<close>, the quotient \<^verbatim>\<open>aa / c\<close>, or the
  denominator of a term (\<^verbatim>\<open>qap\<close> and the two products).
\<close>

datatype site = Recip_d | Quot_c | Term_den

definition eps :: f64 where
  "eps = lit (22204460492503131 / 10 ^ 32)"

definition acc :: f64 where
  "acc = lit (1 / 10 ^ 16)"

definition maxIter :: nat where
  "maxIter = 1000000000"

text \<open>
  One pass of the loop, from \<^verbatim>\<open>d\<close>, \<^verbatim>\<open>c\<close>, \<^verbatim>\<open>res\<close> at index \<^verbatim>\<open>i\<close>: the divisors it uses, then
  \<^verbatim>\<open>del\<close> and the new \<^verbatim>\<open>d\<close>, \<^verbatim>\<open>c\<close>, \<^verbatim>\<open>res\<close>.
\<close>

definition cf_pass ::
  "f64 \<Rightarrow> f64 \<Rightarrow> f64 \<Rightarrow> nat \<Rightarrow> f64 \<Rightarrow> f64 \<Rightarrow> f64 \<Rightarrow> (site \<times> f64) list \<times> f64 \<times> f64 \<times> f64 \<times> f64" where
  "cf_pass \<alpha> \<beta> x i d c res =
     (let qab = fadd \<alpha> \<beta>; qap = fadd \<alpha> (lit 1); qam = fsub \<alpha> (lit 1);
          m = f64_of_nat i;
          m2 = fmul (lit 2) m;
          den1 = fmul (fadd qam m2) (fadd \<alpha> m2);
          aa1 = fdiv (fmul (fmul m (fsub \<beta> m)) x) den1;
          d1 = fadd (lit 1) (fmul aa1 d);
          d2 = (if flt (fabs d1) eps then eps else d1);
          c1 = fadd (lit 1) (fdiv aa1 c);
          c2 = (if flt (fabs c1) eps then eps else c1);
          d3 = fdiv (lit 1) d2;
          res1 = fmul res (fmul d3 c2);
          den2 = fmul (fadd \<alpha> m2) (fadd qap m2);
          aa2 = fdiv (fmul (fmul (fneg (fadd \<alpha> m)) (fadd qab m)) x) den2;
          d4 = fadd (lit 1) (fmul aa2 d3);
          d5 = (if flt (fabs d4) eps then eps else d4);
          c3 = fadd (lit 1) (fdiv aa2 c2);
          c4 = (if flt (fabs c3) eps then eps else c3);
          d6 = fdiv (lit 1) d5;
          del = fmul d6 c4;
          res2 = fmul res1 del
      in ([(Term_den, den1), (Quot_c, c), (Recip_d, d2),
           (Term_den, den2), (Quot_c, c2), (Recip_d, d5)],
          del, d6, c4, res2))"

function cf_loop ::
  "f64 \<Rightarrow> f64 \<Rightarrow> f64 \<Rightarrow> nat \<Rightarrow> f64 \<Rightarrow> f64 \<Rightarrow> f64 \<Rightarrow> (site \<times> f64) list \<times> (panic + f64)" where
  "cf_loop \<alpha> \<beta> x i d c res =
     (if maxIter < i then ([], Inl CF_no_convergence)
      else
        (case cf_pass \<alpha> \<beta> x i d c res of
           (divs, del, d', c', res') \<Rightarrow>
             if flt (fabs (fsub del (lit 1))) acc then (divs, Inr res')
             else (case cf_loop \<alpha> \<beta> x (Suc i) d' c' res' of (tr, r) \<Rightarrow> (divs @ tr, r))))"
  by pat_completeness auto
termination
  by (relation "measure (\<lambda>(\<alpha>, \<beta>, x, i, d, c, res). Suc maxIter - i)") auto

declare cf_loop.simps [simp del]

definition betaContinuedFraction ::
  "f64 \<Rightarrow> f64 \<Rightarrow> f64 \<Rightarrow> (site \<times> f64) list \<times> (panic + f64)" where
  "betaContinuedFraction \<alpha> \<beta> x =
     (let qab = fadd \<alpha> \<beta>; qap = fadd \<alpha> (lit 1);
          d0 = fsub (lit 1) (fdiv (fmul qab x) qap);
          d1 = (if flt (fabs d0) eps then eps else d0);
          d = fdiv (lit 1) d1
      in case cf_loop \<alpha> \<beta> x 1 d (lit 1) d of
           (tr, r) \<Rightarrow> ((Term_den, qap) # (Recip_d, d1) # tr, r))"

section \<open>Beta_CDF, Beta_CDF_At, Beta_PDF_At\<close>

definition Beta_CDF :: "ext \<Rightarrow> f64 \<Rightarrow> f64 \<Rightarrow> f64 \<Rightarrow> panic + f64" where
  "Beta_CDF E \<alpha> \<beta> x =
     (let y = math_Exp E
                (fadd (fadd (fsub (fsub (LnGamma E (fadd \<alpha> \<beta>)) (LnGamma E \<alpha>)) (LnGamma E \<beta>))
                            (fmul \<alpha> (math_Log E x)))
                      (fmul \<beta> (math_Log E (fsub (lit 1) x))))
      in if feq x (lit 0) then Inr (lit 0)
         else if feq x (lit 1) then Inr (lit 1)
         else if flt x (fdiv (fadd \<alpha> (lit 1)) (fadd (fadd \<alpha> \<beta>) (lit 2))) then
           (case snd (betaContinuedFraction \<alpha> \<beta> x) of
              Inl e \<Rightarrow> Inl e
            | Inr cf \<Rightarrow> Inr (fdiv (fmul y cf) \<alpha>))
         else
           (case snd (betaContinuedFraction \<beta> \<alpha> (fsub (lit 1) x)) of
              Inl e \<Rightarrow> Inl e
            | Inr cf \<Rightarrow> Inr (fsub (lit 1) (fdiv (fmul y cf) \<beta>))))"

definition Beta_CDF_At :: "ext \<Rightarrow> f64 \<Rightarrow> f64 \<Rightarrow> f64 \<Rightarrow> panic + f64" where
  "Beta_CDF_At E \<alpha> \<beta> x = Beta_CDF E \<alpha> \<beta> x"

definition Beta_PDF_At :: "ext \<Rightarrow> f64 \<Rightarrow> f64 \<Rightarrow> f64 \<Rightarrow> f64" where
  "Beta_PDF_At E \<alpha> \<beta> x =
     (if feq x (lit 0) then lit 0
      else if feq x (lit 1) then lit 1
      else Beta_PDF E \<alpha> \<beta> x)"

section \<open>cdf_beta_Pinv and BetaInv_CDF_For\<close>

definition tol :: f64 where
  "tol = lit (14901161193847656 / 10 ^ 24)"

text \<open>
  The labelled loop of \<^verbatim>\<open>cdf_beta_Pinv\<close>, from the state \<^verbatim>\<open>x\<close>, \<^verbatim>\<open>step0\<close>, \<^verbatim>\<open>n\<close>. It ends:
  \<^verbatim>\<open>n\<close> grows by one in every pass and a pass with \<^verbatim>\<open>n > 64\<close> breaks. Beside its result
  the model returns the iterates: the value of \<^verbatim>\<open>x\<close> at the head of every pass, and the
  value the last pass gave it before the sentinel \<^verbatim>\<open>999.00\<close> replaced it.
\<close>

text \<open>
  The step of one pass, from \<^verbatim>\<open>x\<close>, the residual \<^verbatim>\<open>dP\<close> and the density \<^verbatim>\<open>phi\<close>: the new
  \<^verbatim>\<open>step0\<close> and the new \<^verbatim>\<open>x\<close>.
\<close>

definition newton_step :: "f64 \<Rightarrow> f64 \<Rightarrow> f64 \<Rightarrow> f64 \<Rightarrow> f64 \<Rightarrow> f64 \<Rightarrow> f64 \<times> f64" where
  "newton_step \<alpha> \<beta> mean x dP phi =
     (let lambda = fdiv dP (fmax (fmul (lit 2) (fabs (fdiv dP x))) phi);
          step1 = fdiv (fmul (fmul (fneg (fsub (fdiv (fsub \<alpha> (lit 1)) x)
                                               (fdiv (fsub \<beta> (lit 1)) (fsub (lit 1) x))))
                                   lambda) lambda) (lit 2);
          step = (if flt (fabs step1) (fabs lambda) then fadd lambda step1
                  else fmul lambda (fmul (lit 2) (fabs (fdiv lambda step1))));
          x' = (if fgt (fadd x step) (lit 0) \<and> flt (fadd x step) (lit 1)
                then fadd x step
                else fmul (fsqrt x) (fsqrt mean))
      in (lambda, x'))"

function refine ::
  "ext \<Rightarrow> f64 \<Rightarrow> f64 \<Rightarrow> f64 \<Rightarrow> f64 \<Rightarrow> f64 \<Rightarrow> f64 \<Rightarrow> nat \<Rightarrow> f64 list \<times> (panic + f64)" where
  "refine E \<alpha> \<beta> p mean x step0 n =
     (if fgt (fabs step0) (fmul (lit (1 / 10 ^ 11)) x) then
        (case Beta_CDF_At E \<alpha> \<beta> x of
           Inl e \<Rightarrow> ([x], Inl e)
         | Inr cdf \<Rightarrow>
             if feq (fsub p cdf) (lit 0) \<or> 64 < n then ([x], Inr x)
             else
               (case newton_step \<alpha> \<beta> mean x (fsub p cdf) (Beta_PDF_At E \<alpha> \<beta> x) of
                  (step0', x') \<Rightarrow>
                    if fgt (fabs (fsub p cdf)) (fmul tol p) then ([x, x'], Inr (lit 999))
                    else (case refine E \<alpha> \<beta> p mean x' step0' (Suc n) of
                            (xs, r) \<Rightarrow> (x # xs, r))))
      else ([x], Inr x))"
  by pat_completeness auto
termination
  by (relation "measure (\<lambda>(E, \<alpha>, \<beta>, p, mean, x, step0, n). 65 - n)") auto

declare refine.simps [simp del]

definition cdf_beta_Pinv :: "ext \<Rightarrow> f64 \<Rightarrow> f64 \<Rightarrow> f64 \<Rightarrow> (panic + f64) option" where
  "cdf_beta_Pinv E \<alpha> \<beta> p =
     (let mean = fdiv \<alpha> (fadd \<alpha> \<beta>);
          x = (if flt p (lit (1 / 10)) then
                 (let lg_ab = LnGamma E (fadd \<alpha> \<beta>);
                      lg_a = LnGamma E \<alpha>;
                      lg_b = LnGamma E \<beta>;
                      lx = fdiv (fadd (fsub (fadd (fadd (math_Log E \<alpha>) lg_a) lg_b) lg_ab)
                                      (math_Log E p)) \<alpha>;
                      x1 = (if fle lx (lit 0) then
                              (let x0 = math_Exp E lx
                               in fmul x0 (math_Pow E (fsub (lit 1) x0)
                                                      (fdiv (fneg (fsub \<beta> (lit 1))) \<alpha>)))
                            else mean)
                  in if fgt x1 mean then mean else x1)
               else mean)
      in case bisect E x p \<alpha> \<beta> (lit (1 / 100)) (lit (1 / 100)) of
           None \<Rightarrow> None
         | Some xb \<Rightarrow> Some (snd (refine E \<alpha> \<beta> p mean xb (lit 999999) 0)))"

definition BetaInv_CDF_For :: "ext \<Rightarrow> f64 \<Rightarrow> f64 \<Rightarrow> f64 \<Rightarrow> (panic + f64) option" where
  "BetaInv_CDF_For E \<alpha> \<beta> p =
     (if flt p (lit 0) \<or> fgt p (lit 1) then Some (Inl P_out_of_range)
      else if flt \<alpha> (lit 0) then Some (Inl Alpha_negative)
      else if flt \<beta> (lit 0) then Some (Inl Beta_negative)
      else if feq p (lit 0) then Some (Inr (lit 0))
      else if feq p (lit 1) then Some (Inr (lit 1))
      else if fgt p (lit (1 / 2)) then
        (case cdf_beta_Pinv E (fsub (lit 1) p) \<beta> \<alpha> of
           None \<Rightarrow> None
         | Some (Inl e) \<Rightarrow> Some (Inl e)
         | Some (Inr r) \<Rightarrow> Some (Inr (fsub (lit 1) r)))
      else cdf_beta_Pinv E \<alpha> \<beta> p)"

section \<open>Lower bounds on float64 values\<close>

text \<open>\<open>at_least c v\<close>: the value \<open>v\<close> is a number, finite or \<open>+Inf\<close>, and not below \<open>c\<close>.\<close>

definition at_least :: "rat \<Rightarrow> f64 \<Rightarrow> bool" where
  "at_least c v =
     (case v of NaN \<Rightarrow> False | Inf s \<Rightarrow> \<not> s | Fin s q \<Rightarrow> 0 \<le> q \<and> c \<le> sval s q)"

section \<open>An environment for concrete runs\<close>

text \<open>
  The outside functions as they behave on the runs below, all at \<open>\<alpha> = \<beta> = 1\<close> and
  \<open>x = 1/2\<close>: \<open>ln \<Gamma>(1) = ln \<Gamma>(2) = 0\<close>, the density of Beta(1,1) is \<open>1\<close>, and the exponential
  is taken at \<open>ln (1/2) + ln (1/2)\<close>, where it is \<open>1/4\<close>.
\<close>

definition uniform_env :: ext where
  "uniform_env =
     \<lparr> LnGamma = (\<lambda>z. lit 0),
       Beta_PDF = (\<lambda>a b x. lit 1),
       math_Exp = (\<lambda>z. lit (1 / 4)),
       math_Log = (\<lambda>z. lit (- 6931471805599453 / 10 ^ 16)),
       math_Pow = (\<lambda>a b. lit 1) \<rparr>"

section \<open>Constants\<close>

lemma lit_0: "lit 0 = Fin False 0" by code_simp
lemma lit_1: "lit 1 = Fin False 1" by code_simp
lemma lit_2: "lit 2 = Fin False 2" by code_simp
lemma lit_half: "lit (1 / 2) = Fin False (1 / 2)" by code_simp
lemma lit_quarter: "lit (1 / 4) = Fin False (1 / 4)" by code_simp
lemma lit_3quarter: "lit (3 / 4) = Fin False (3 / 4)" by code_simp
lemma lit_999: "lit 999 = Fin False 999" by code_simp
lemma lit_999999: "lit 999999 = Fin False 999999" by code_simp
lemma lit_tenth: "lit (1 / 10) = Fin False (3602879701896397 / 2 ^ 55)" by code_simp
lemma lit_hundredth: "lit (1 / 100) = Fin False (5764607523034235 / 2 ^ 59)" by code_simp
lemma lit_1em11: "lit (1 / 10 ^ 11) = Fin False (6189700196426901 / 2 ^ 89)" by code_simp
lemma tol_val: "tol = Fin False (1 / 2 ^ 26)" by code_simp
lemma eps_val: "eps = Fin False (1 / 2 ^ 52)" by code_simp
lemma acc_val: "acc = Fin False (2028240960365167 / 2 ^ 104)" by code_simp

lemmas lits = lit_0 lit_1 lit_2 lit_half lit_quarter lit_3quarter lit_999 lit_999999 lit_tenth
  lit_hundredth lit_1em11

section \<open>Powers of two\<close>

lemma pow2_pos: "0 < pow2 k"
  by (simp add: pow2_def power_int_def)

lemma pow2_nonneg: "0 \<le> pow2 k"
  using pow2_pos [of k] by simp

lemma pow2_add: "pow2 (a + b) = pow2 a * pow2 b"
  unfolding pow2_def by (rule power_int_add) simp

lemma pow2_diff: "pow2 (a - b) = pow2 a / pow2 b"
  unfolding pow2_def by (rule power_int_diff) simp

lemma pow2_0: "pow2 0 = 1"
  by (simp add: pow2_def)

lemma pow2_mono: "k \<le> l \<Longrightarrow> pow2 k \<le> pow2 l"
  unfolding pow2_def by (rule power_int_increasing) simp_all

lemma pow2_less: "k < l \<Longrightarrow> pow2 k < pow2 l"
  unfolding pow2_def by (rule power_int_strict_increasing) simp_all

lemma pow2_nat: "0 \<le> k \<Longrightarrow> pow2 k = rat_of_int (2 ^ nat k)"
  by (simp add: pow2_def power_int_def)

lemma pow2_1: "pow2 1 = 2"
  by (simp add: pow2_def)

lemma pow2_suc: "pow2 (k + 1) = 2 * pow2 k"
  by (simp only: pow2_add pow2_1 mult.commute)

lemma ulp_52: "pow2 (e - 52) * pow2 52 = pow2 e"
  by (simp add: pow2_add [symmetric])

lemma ulp_53: "pow2 (e - 52) * pow2 53 = pow2 (e + 1)"
  by (simp add: pow2_add [symmetric] add.commute)

lemma ulp_52': "pow2 52 * pow2 (e - 52) = pow2 e"
  using ulp_52 [of e] by (simp only: mult.commute)

lemma ulp_53': "pow2 53 * pow2 (e - 52) = pow2 (e + 1)"
  using ulp_53 [of e] by (simp only: mult.commute)

section \<open>The binary logarithm\<close>

lemma bitlen_pow2:
  assumes "0 < a"
  shows "pow2 (bitlen a - 1) \<le> of_int a" and "of_int a < pow2 (bitlen a)"
proof -
  have l: "1 \<le> bitlen a" using assms by (simp add: bitlen_alt_def)
  have "2 ^ nat (bitlen a - 1) \<le> a" using bitlen_bounds [OF assms] by simp
  then have "rat_of_int (2 ^ nat (bitlen a - 1)) \<le> of_int a" by (simp only: of_int_le_iff)
  then show "pow2 (bitlen a - 1) \<le> of_int a" using l by (simp add: pow2_nat)
  have "a < 2 ^ nat (bitlen a)" using bitlen_bounds [OF assms] by simp
  then have "rat_of_int a < of_int (2 ^ nat (bitlen a))" by (simp only: of_int_less_iff)
  then show "of_int a < pow2 (bitlen a)" using l by (simp add: pow2_nat)
qed

lemma ilog2_bounds:
  assumes "0 < q"
  shows "pow2 (ilog2 q) \<le> q" and "q < pow2 (ilog2 q + 1)"
proof -
  obtain a b where ab: "quotient_of q = (a, b)" by (cases "quotient_of q")
  have b: "0 < b" using ab by (rule quotient_of_denom_pos)
  have q: "q = of_int a / of_int b" using ab by (rule quotient_of_div)
  have a: "0 < a" using assms b unfolding q by (simp add: zero_less_divide_iff)
  define la lb where "la = bitlen a" and "lb = bitlen b"
  note A = bitlen_pow2 [OF a, folded la_def]
  note B = bitlen_pow2 [OF b, folded lb_def]
  have bpos: "(0::rat) < of_int b" using b by simp
  have apos: "(0::rat) < of_int a" using a by simp
  have up: "q < pow2 (la - lb + 1)"
  proof -
    have "q < pow2 la / pow2 (lb - 1)"
      unfolding q using A(2) B(1) apos pow2_pos [of "lb - 1"]
      by (intro frac_less) simp_all
    also have "\<dots> = pow2 (la - lb + 1)"
      by (simp add: pow2_diff [symmetric] algebra_simps)
    finally show ?thesis .
  qed
  have low: "pow2 (la - lb - 1) < q"
  proof -
    have "pow2 (la - 1) / pow2 lb < q"
      unfolding q using A(1) B(2) bpos pow2_pos [of "la - 1"]
      by (intro frac_less2) simp_all
    moreover have "pow2 (la - 1) / pow2 lb = pow2 (la - lb - 1)"
      by (simp add: pow2_diff [symmetric] algebra_simps)
    ultimately show ?thesis by simp
  qed
  have il: "ilog2 q = (if pow2 (la - lb) \<le> q then la - lb else la - lb - 1)"
    by (simp add: ilog2_def ab la_def lb_def Let_def)
  show "pow2 (ilog2 q) \<le> q"
    using low by (simp add: il)
  show "q < pow2 (ilog2 q + 1)"
    using up by (auto simp: il not_le)
qed

lemma ilog2_ge: "0 < q \<Longrightarrow> pow2 k \<le> q \<Longrightarrow> k \<le> ilog2 q"
proof (rule ccontr)
  assume q: "0 < q" and k: "pow2 k \<le> q" and "\<not> k \<le> ilog2 q"
  then have "ilog2 q + 1 \<le> k" by simp
  then have "pow2 (ilog2 q + 1) \<le> pow2 k" by (rule pow2_mono)
  with ilog2_bounds(2) [OF q] k show False by simp
qed

lemma ilog2_less: "0 < q \<Longrightarrow> q < pow2 k \<Longrightarrow> ilog2 q < k"
proof (rule ccontr)
  assume q: "0 < q" and k: "q < pow2 k" and "\<not> ilog2 q < k"
  then have "k \<le> ilog2 q" by simp
  then have "pow2 k \<le> pow2 (ilog2 q)" by (rule pow2_mono)
  with ilog2_bounds(1) [OF q] k show False by simp
qed

lemma ilog2_eq: "pow2 k \<le> q \<Longrightarrow> q < pow2 (k + 1) \<Longrightarrow> ilog2 q = k"
proof -
  assume a: "pow2 k \<le> q" and b: "q < pow2 (k + 1)"
  have q: "0 < q" using a pow2_pos [of k] by linarith
  from ilog2_ge [OF q a] ilog2_less [OF q b] show ?thesis by simp
qed

section \<open>Rounding to an integer\<close>

lemma rhe_of_int: "rhe (of_int n) = n"
  by (simp add: rhe_def)

lemma rhe_floor_ceiling: "\<lfloor>r\<rfloor> \<le> rhe r \<and> rhe r \<le> \<lceil>r\<rceil>"
  unfolding rhe_def Let_def by (auto simp: ceiling_def) linarith+

lemma rhe_ge: "of_int n \<le> r \<Longrightarrow> n \<le> rhe r"
  using rhe_floor_ceiling [of r] by (meson le_floor_iff order_trans)

lemma rhe_le: "r \<le> of_int n \<Longrightarrow> rhe r \<le> n"
  using rhe_floor_ceiling [of r] by (meson ceiling_le_iff order_trans)

lemma rhe_ge_pow2: "0 \<le> k \<Longrightarrow> pow2 k \<le> r \<Longrightarrow> 2 ^ nat k \<le> rhe r"
  by (rule rhe_ge) (simp only: pow2_nat)

lemma rhe_le_pow2: "0 \<le> k \<Longrightarrow> r \<le> pow2 k \<Longrightarrow> rhe r \<le> 2 ^ nat k"
  by (rule rhe_le) (simp only: pow2_nat)

lemma of_int_ge_pow2: "0 \<le> k \<Longrightarrow> 2 ^ nat k \<le> n \<Longrightarrow> pow2 k \<le> rat_of_int n"
  by (simp only: pow2_nat of_int_le_iff)

lemma of_int_le_pow2: "0 \<le> k \<Longrightarrow> n \<le> 2 ^ nat k \<Longrightarrow> rat_of_int n \<le> pow2 k"
  by (simp only: pow2_nat of_int_le_iff)

section \<open>Rounding to binary64\<close>

text \<open>The significand of a magnitude in the normal range, and below it.\<close>

lemma normal_significand:
  assumes "pow2 e \<le> q" and "q < pow2 (e + 1)"
  shows "2 ^ 52 \<le> rhe (q / pow2 (e - 52))" and "rhe (q / pow2 (e - 52)) \<le> 2 ^ 53"
proof -
  have u: "0 < pow2 (e - 52)" by (rule pow2_pos)
  have "pow2 52 \<le> q / pow2 (e - 52)"
    using assms(1) u by (simp add: pos_le_divide_eq ulp_52')
  from rhe_ge_pow2 [OF _ this] show "2 ^ 52 \<le> rhe (q / pow2 (e - 52))" by simp
  have "q / pow2 (e - 52) \<le> pow2 53"
    using assms(2) u by (simp add: pos_divide_le_eq ulp_53')
  from rhe_le_pow2 [OF _ this] show "rhe (q / pow2 (e - 52)) \<le> 2 ^ 53" by simp
qed

lemma subnormal_significand:
  assumes "0 \<le> q" and "q \<le> pow2 (- 1022)"
  shows "0 \<le> rhe (q / pow2 (- 1074))" and "rhe (q / pow2 (- 1074)) \<le> 2 ^ 52"
proof -
  have u: "0 < pow2 (- 1074)" by (rule pow2_pos)
  have "rat_of_int 0 \<le> q / pow2 (- 1074)" using assms(1) u by simp
  then show "0 \<le> rhe (q / pow2 (- 1074))" by (rule rhe_ge)
  have "q / pow2 (- 1074) \<le> pow2 52"
    using assms(2) u ulp_52' [of "- 1022"] by (simp add: pos_divide_le_eq)
  from rhe_le_pow2 [OF _ this] show "rhe (q / pow2 (- 1074)) \<le> 2 ^ 52" by simp
qed

lemma rnd_normal:
  assumes "pow2 e \<le> q" and "q < pow2 (e + 1)" and "- 1022 \<le> e"
  shows "rnd s q = (if 1023 < e \<or> (e = 1023 \<and> rhe (q / pow2 (e - 52)) = 2 ^ 53) then Inf s
                    else Fin s (of_int (rhe (q / pow2 (e - 52))) * pow2 (e - 52)))"
proof -
  have q: "0 < q" using assms(1) pow2_pos [of e] by linarith
  have "ilog2 q = e" using assms(1,2) by (rule ilog2_eq)
  then show ?thesis using q assms(3) by (simp add: rnd_def Let_def max_def)
qed

lemma rnd_subnormal:
  assumes "0 < q" and "q < pow2 (- 1022)"
  shows "rnd s q = Fin s (of_int (rhe (q / pow2 (- 1074))) * pow2 (- 1074))"
proof -
  have "ilog2 q < - 1022" using assms by (rule ilog2_less)
  then show ?thesis using assms(1) by (simp add: rnd_def Let_def max_def)
qed

text \<open>Every magnitude falls under one of three cases.\<close>

lemma rnd_forms:
  assumes "0 \<le> q"
  obtains (zero) "q = 0" "rnd s q = Fin s 0"
  | (subnormal) n where "0 < q" "q < pow2 (- 1022)" "rnd s q = Fin s (of_int n * pow2 (- 1074))"
      "n = rhe (q / pow2 (- 1074))" "0 \<le> n" "n \<le> 2 ^ 52"
  | (normal) e n where "pow2 e \<le> q" "q < pow2 (e + 1)" "- 1022 \<le> e"
      "n = rhe (q / pow2 (e - 52))" "2 ^ 52 \<le> n" "n \<le> 2 ^ 53"
      "rnd s q = (if 1023 < e \<or> (e = 1023 \<and> n = 2 ^ 53) then Inf s
                  else Fin s (of_int n * pow2 (e - 52)))"
proof (cases "q = 0")
  case True
  then show ?thesis by (intro zero) (simp_all add: rnd_def)
next
  case False
  then have q: "0 < q" using assms by simp
  show ?thesis
  proof (cases "q < pow2 (- 1022)")
    case True
    show ?thesis
      using subnormal_significand [of q] q True
      by (intro subnormal [OF q True rnd_subnormal [OF q True] refl]) simp_all
  next
    case False
    have e: "pow2 (ilog2 q) \<le> q" "q < pow2 (ilog2 q + 1)"
      using ilog2_bounds [OF q] by simp_all
    have "- 1022 \<le> ilog2 q" using q False by (intro ilog2_ge) simp_all
    then show ?thesis
      using normal_significand [OF e]
      by (intro normal [OF e _ refl _ _ rnd_normal [OF e]]) simp_all
  qed
qed

lemma rnd_sign_mag:
  assumes "0 \<le> q" and "rnd s q = Fin t v"
  shows "t = s \<and> 0 \<le> v"
  using assms(1)
proof (cases rule: rnd_forms [of q s])
  case zero
  then show ?thesis using assms(2) by simp
next
  case (subnormal n)
  then show ?thesis using assms(2) pow2_nonneg [of "- 1074"] by auto
next
  case (normal e n)
  have "0 \<le> rat_of_int n" using normal(5) by simp
  then show ?thesis using assms(2) normal(7) pow2_nonneg [of "e - 52"]
    by (auto split: if_splits)
qed

lemma rnd_shape:
  assumes "0 \<le> q"
  shows "rnd s q = Inf s \<or> (\<exists>v. rnd s q = Fin s v \<and> 0 \<le> v)"
  using assms
proof (cases rule: rnd_forms [of q s])
  case zero
  then show ?thesis by simp
next
  case (subnormal n)
  then show ?thesis using pow2_nonneg [of "- 1074"] by simp
next
  case (normal e n)
  have "0 \<le> rat_of_int n" using normal(5) by simp
  then show ?thesis using normal(7) pow2_nonneg [of "e - 52"] by simp
qed

text \<open>Rounding keeps a magnitude on its side of a power of two.\<close>

lemma rnd_ge_pow2:
  assumes "- 1022 \<le> k" and "pow2 k \<le> q"
  shows "rnd s q = Inf s \<or> (\<exists>v. rnd s q = Fin s v \<and> pow2 k \<le> v)"
proof -
  have q: "0 < q" using assms(2) pow2_pos [of k] by linarith
  define e where "e = ilog2 q"
  have e: "pow2 e \<le> q" "q < pow2 (e + 1)"
    using ilog2_bounds [OF q] by (simp_all add: e_def)
  have ke: "k \<le> e" unfolding e_def using q assms(2) by (rule ilog2_ge)
  then have e1022: "- 1022 \<le> e" using assms(1) by simp
  define n where "n = rhe (q / pow2 (e - 52))"
  have n: "2 ^ 52 \<le> n" unfolding n_def using e by (rule normal_significand)
  have "pow2 k \<le> pow2 e" using ke by (rule pow2_mono)
  also have "\<dots> = pow2 52 * pow2 (e - 52)" by (simp only: ulp_52')
  also have "\<dots> \<le> of_int n * pow2 (e - 52)"
    using n by (intro mult_right_mono of_int_ge_pow2 pow2_nonneg) simp_all
  finally have "pow2 k \<le> of_int n * pow2 (e - 52)" .
  then show ?thesis
    using rnd_normal [OF e e1022, of s] by (simp add: n_def)
qed

lemma rnd_le_pow2:
  assumes "- 1022 \<le> k" and "k \<le> 1023" and "0 \<le> q" and "q \<le> pow2 k"
  shows "\<exists>v. rnd s q = Fin s v \<and> 0 \<le> v \<and> v \<le> pow2 k"
  using assms(3)
proof (cases rule: rnd_forms [of q s])
  case zero
  then show ?thesis using pow2_nonneg [of k] by simp
next
  case (subnormal n)
  have "of_int n * pow2 (- 1074) \<le> pow2 52 * pow2 (- 1074)"
    using subnormal(6) by (intro mult_right_mono of_int_le_pow2 pow2_nonneg) simp_all
  also have "\<dots> = pow2 (- 1022)" using ulp_52' [of "- 1022"] by simp
  also have "\<dots> \<le> pow2 k" using assms(1) by (rule pow2_mono)
  finally have "of_int n * pow2 (- 1074) \<le> pow2 k" .
  moreover have "0 \<le> of_int n * pow2 (- 1074)"
    using subnormal(5) pow2_nonneg [of "- 1074"] by simp
  ultimately show ?thesis using subnormal(3) by simp
next
  case (normal e n)
  show ?thesis
  proof (cases "q = pow2 k")
    case True
    have "ilog2 q = k" unfolding True using pow2_less [of k "k + 1"] by (intro ilog2_eq) simp_all
    moreover have "ilog2 q = e" using normal(1,2) by (rule ilog2_eq)
    ultimately have ek: "e = k" by simp
    have "q / pow2 (k - 52) = pow2 52"
      using pow2_pos [of "k - 52"] ulp_52 [of k] by (simp add: True field_simps)
    then have "q / pow2 (k - 52) = rat_of_int (2 ^ nat 52)" by (simp only: pow2_nat)
    then have "rhe (q / pow2 (k - 52)) = 2 ^ nat 52" by (simp only: rhe_of_int)
    then have n: "n = 2 ^ 52" using normal(4) ek by simp
    have "rat_of_int n = pow2 52" unfolding n by (simp add: pow2_nat)
    then have "rat_of_int n * pow2 (k - 52) = pow2 k" by (simp only: ulp_52')
    then show ?thesis
      using normal(7) assms(2) pow2_nonneg [of k] by (simp add: ek n)
  next
    case False
    then have "q < pow2 k" using assms(4) by simp
    have q: "0 < q" using normal(1) pow2_pos [of e] by linarith
    have "ilog2 q < k" using q \<open>q < pow2 k\<close> by (rule ilog2_less)
    moreover have "ilog2 q = e" using normal(1,2) by (rule ilog2_eq)
    ultimately have ek: "e < k" by simp
    have "of_int n * pow2 (e - 52) \<le> pow2 53 * pow2 (e - 52)"
      using normal(6) by (intro mult_right_mono of_int_le_pow2 pow2_nonneg) simp_all
    also have "\<dots> = pow2 (e + 1)" by (simp only: ulp_53')
    also have "\<dots> \<le> pow2 k" using ek by (intro pow2_mono) simp
    finally have "of_int n * pow2 (e - 52) \<le> pow2 k" .
    moreover have "0 \<le> of_int n * pow2 (e - 52)"
      using normal(5) pow2_nonneg [of "e - 52"] by simp
    moreover have "\<not> (1023 < e \<or> e = 1023 \<and> n = 2 ^ 53)" using ek assms(2) by simp
    ultimately show ?thesis using normal(7) by simp
  qed
qed

section \<open>bisect never moves its seed\<close>

lemma bisect_loop_seed:
  "fgt xtol (Fin False 0) \<Longrightarrow>
   bisect_loop cdf p xtol ptol x (Fin False 0) (Fin False 0) = Some x"
  by (subst bisect_loop.simps) (cases xtol; simp add: fsub_def fgt_def sval_def)

lemma bisect_seed: "fgt xtol (lit 0) \<Longrightarrow> bisect E x p a b xtol ptol = Some x"
  by (simp add: bisect_def lit_0 bisect_loop_seed)

lemma hundredth_pos: "fgt (lit (1 / 100)) (lit 0)"
  by (simp add: lits fgt_def sval_def)

text \<open>
  C5. For every seed \<open>x\<close>, target \<open>p\<close>, shape parameters \<open>a\<close>, \<open>b\<close>, every \<open>ptol\<close> and every
  \<open>xtol > 0\<close>, \<^verbatim>\<open>bisect(x, p, a, b, xtol, ptol)\<close> returns the seed \<open>x\<close> unchanged: both
  brackets start at \<open>0\<close>, so \<open>|x1 - x0| > xtol\<close> is false on entry and the body never runs.
\<close>

theorem bisect_returns_seed:
  assumes "fgt xtol (lit 0)"
  shows "bisect E x p a b xtol ptol = Some x \<and> \<not> fgt (fabs (fsub (lit 0) (lit 0))) xtol"
proof
  show "bisect E x p a b xtol ptol = Some x"
    using assms by (rule bisect_seed)
  show "\<not> fgt (fabs (fsub (lit 0) (lit 0))) xtol"
    using assms by (cases xtol) (simp_all add: lit_0 fsub_def fgt_def sval_def)
qed

theorem bisect_returns_seed_witness:
  "fgt (lit (1 / 100)) (lit 0) \<and>
   bisect uniform_env (lit (1 / 2)) (lit (1 / 4)) (lit 1) (lit 1) (lit (1 / 100)) (lit (1 / 100))
     = Some (lit (1 / 2))"
  using bisect_returns_seed [OF hundredth_pos] hundredth_pos by simp

section \<open>Beta_CDF at the ends of the interval\<close>

lemma Beta_CDF_At_0: "feq x (lit 0) \<Longrightarrow> Beta_CDF_At E \<alpha> \<beta> x = Inr (lit 0)"
  by (simp add: Beta_CDF_At_def Beta_CDF_def Let_def)

lemma Beta_CDF_At_1:
  "\<not> feq x (lit 0) \<Longrightarrow> feq x (lit 1) \<Longrightarrow> Beta_CDF_At E \<alpha> \<beta> x = Inr (lit 1)"
  by (simp add: Beta_CDF_At_def Beta_CDF_def Let_def)

text \<open>
  C8. \<^verbatim>\<open>Beta_CDF_At(\<alpha>, \<beta>, 0)\<close> returns exactly \<open>0.0\<close> and \<^verbatim>\<open>Beta_CDF_At(\<alpha>, \<beta>, 1)\<close> returns
  exactly \<open>1.0\<close>: for every \<open>\<alpha>\<close> and \<open>\<beta>\<close>, so for every \<open>\<alpha> > 0\<close> and \<open>\<beta> > 0\<close>, and whatever the
  outside functions compute for the unused factor \<^verbatim>\<open>y\<close>.
\<close>

theorem Beta_CDF_At_boundaries:
  "Beta_CDF_At E \<alpha> \<beta> (lit 0) = Inr (lit 0) \<and> Beta_CDF_At E \<alpha> \<beta> (lit 1) = Inr (lit 1)"
  using Beta_CDF_At_0 [of "lit 0" E \<alpha> \<beta>] Beta_CDF_At_1 [of "lit 1" E \<alpha> \<beta>]
  by (simp add: lits sval_def)

section \<open>Validation in BetaInv_CDF_For\<close>

lemma lit_minus_1: "lit (- 1) = Fin True 1" by code_simp

text \<open>
  C6, as the spec states it: for every \<open>\<alpha> \<le> 0\<close> or \<open>\<beta> \<le> 0\<close> the call signals a domain error.
  The guards of the source are \<^verbatim>\<open>\<alpha> < 0.0\<close> and \<^verbatim>\<open>\<beta> < 0.0\<close>: at \<open>\<alpha> = 0\<close>, \<open>\<beta> = 1\<close>, \<open>p = 0\<close> no
  guard fires and the call returns the number \<open>0.0\<close>.
\<close>

theorem BetaInv_CDF_For_accepts_zero_shape:
  "fle (lit 0) (lit 0) \<and>
   BetaInv_CDF_For uniform_env (lit 0) (lit 1) (lit 0) = Some (Inr (lit 0))"
  by (simp add: BetaInv_CDF_For_def fle_def lits sval_def fgt_def)

text \<open>
  C6, amended: for every \<open>\<alpha> < 0\<close> or \<open>\<beta> < 0\<close>, and every \<open>p\<close>, \<^verbatim>\<open>BetaInv_CDF_For\<close> panics with
  one of its three validation messages (the one for \<open>p\<close> comes first when \<open>p\<close> is out of
  range too) and computes no number.
\<close>

theorem BetaInv_CDF_For_rejects_negative_shape:
  assumes "flt \<alpha> (lit 0) \<or> flt \<beta> (lit 0)"
  shows "BetaInv_CDF_For E \<alpha> \<beta> p = Some (Inl P_out_of_range) \<or>
         BetaInv_CDF_For E \<alpha> \<beta> p = Some (Inl Alpha_negative) \<or>
         BetaInv_CDF_For E \<alpha> \<beta> p = Some (Inl Beta_negative)"
  using assms by (auto simp: BetaInv_CDF_For_def)

theorem BetaInv_CDF_For_rejects_negative_shape_witness:
  "(flt (lit (- 1)) (lit 0) \<or> flt (lit 1) (lit 0)) \<and>
   BetaInv_CDF_For uniform_env (lit (- 1)) (lit 1) (lit (1 / 2)) = Some (Inl Alpha_negative)"
proof -
  have neg: "flt (lit (- 1)) (lit 0) \<or> flt (lit 1) (lit 0)"
    by (simp add: lit_minus_1 lits sval_def)
  have "BetaInv_CDF_For uniform_env (lit (- 1)) (lit 1) (lit (1 / 2)) \<noteq> Some (Inl P_out_of_range)"
    by (simp add: BetaInv_CDF_For_def lit_minus_1 lits sval_def fgt_def)
  moreover
  have "BetaInv_CDF_For uniform_env (lit (- 1)) (lit 1) (lit (1 / 2)) \<noteq> Some (Inl Beta_negative)"
    by (simp add: BetaInv_CDF_For_def lit_minus_1 lits sval_def fgt_def)
  ultimately show ?thesis
    using BetaInv_CDF_For_rejects_negative_shape [OF neg, of uniform_env "lit (1 / 2)"] neg
    by blast
qed

section \<open>The first pass of the refinement loop\<close>

lemma refine_fail:
  assumes "fgt (fabs step0) (fmul (lit (1 / 10 ^ 11)) x)"
    and "Beta_CDF_At E \<alpha> \<beta> x = Inr c"
    and "\<not> feq (fsub p c) (lit 0)" and "n \<le> 64"
    and "fgt (fabs (fsub p c)) (fmul tol p)"
  shows "snd (refine E \<alpha> \<beta> p mean x step0 n) = Inr (lit 999)"
  using assms by (subst refine.simps) (simp add: split_beta)

lemma refine_hit:
  assumes "fgt (fabs step0) (fmul (lit (1 / 10 ^ 11)) x)"
    and "Beta_CDF_At E \<alpha> \<beta> x = Inr c"
    and "feq (fsub p c) (lit 0)"
  shows "snd (refine E \<alpha> \<beta> p mean x step0 n) = Inr x"
  using assms by (subst refine.simps) simp

lemma Pinv_from_mean:
  assumes "\<not> flt p (lit (1 / 10))"
  shows "cdf_beta_Pinv E \<alpha> \<beta> p =
         Some (snd (refine E \<alpha> \<beta> p (fdiv \<alpha> (fadd \<alpha> \<beta>)) (fdiv \<alpha> (fadd \<alpha> \<beta>))
                      (lit 999999) 0))"
  using assms by (simp add: cdf_beta_Pinv_def Let_def bisect_seed [OF hundredth_pos])

lemma Pinv_fail:
  assumes "\<not> flt p (lit (1 / 10))"
    and "fdiv \<alpha> (fadd \<alpha> \<beta>) = m"
    and "fgt (fabs (lit 999999)) (fmul (lit (1 / 10 ^ 11)) m)"
    and "Beta_CDF_At E \<alpha> \<beta> m = Inr c"
    and "\<not> feq (fsub p c) (lit 0)"
    and "fgt (fabs (fsub p c)) (fmul tol p)"
  shows "cdf_beta_Pinv E \<alpha> \<beta> p = Some (Inr (lit 999))"
  using assms by (simp add: Pinv_from_mean refine_fail)

lemma Pinv_hit:
  assumes "\<not> flt p (lit (1 / 10))"
    and "fdiv \<alpha> (fadd \<alpha> \<beta>) = m"
    and "fgt (fabs (lit 999999)) (fmul (lit (1 / 10 ^ 11)) m)"
    and "Beta_CDF_At E \<alpha> \<beta> m = Inr c"
    and "feq (fsub p c) (lit 0)"
  shows "cdf_beta_Pinv E \<alpha> \<beta> p = Some (Inr m)"
  using assms by (simp add: Pinv_from_mean refine_hit)

lemma loop_entered:
  "fgt (fabs (lit 999999)) (fmul (lit (1 / 10 ^ 11)) (Fin False 0))"
  "fgt (fabs (lit 999999)) (fmul (lit (1 / 10 ^ 11)) (Fin False (1 / 2)))"
  "fgt (fabs (lit 999999)) (fmul (lit (1 / 10 ^ 11)) (Fin False 1))"
  by code_simp+

lemma Pinv_0_1_quarter:
  "cdf_beta_Pinv E (Fin False 0) (Fin False 1) (Fin False (1 / 4)) = Some (Inr (lit 999))"
proof (rule Pinv_fail)
  show "\<not> flt (Fin False (1 / 4)) (lit (1 / 10))" by (simp add: lits sval_def)
  show "fdiv (Fin False 0) (fadd (Fin False 0) (Fin False 1)) = Fin False 0" by code_simp
  show "fgt (fabs (lit 999999)) (fmul (lit (1 / 10 ^ 11)) (Fin False 0))" by (rule loop_entered)
  show "Beta_CDF_At E (Fin False 0) (Fin False 1) (Fin False 0) = Inr (Fin False 0)"
    using Beta_CDF_At_0 [of "Fin False 0" E] by (simp add: lits sval_def)
  show "\<not> feq (fsub (Fin False (1 / 4)) (Fin False 0)) (lit 0)" by code_simp
  show "fgt (fabs (fsub (Fin False (1 / 4)) (Fin False 0))) (fmul tol (Fin False (1 / 4)))"
    by code_simp
qed

lemma mean_quarter_0: "fdiv (Fin False (1 / 4)) (fadd (Fin False (1 / 4)) (Fin False 0)) = Fin False 1"
  by code_simp

lemma Pinv_quarter_0_1:
  "cdf_beta_Pinv E (Fin False (1 / 4)) (Fin False 0) (Fin False 1) = Some (Inr (Fin False 1))"
proof (rule Pinv_hit)
  show "\<not> flt (Fin False 1) (lit (1 / 10))" by (simp add: lits sval_def)
  show "fdiv (Fin False (1 / 4)) (fadd (Fin False (1 / 4)) (Fin False 0)) = Fin False 1"
    by (rule mean_quarter_0)
  show "fgt (fabs (lit 999999)) (fmul (lit (1 / 10 ^ 11)) (Fin False 1))" by (rule loop_entered)
  show "Beta_CDF_At E (Fin False (1 / 4)) (Fin False 0) (Fin False 1) = Inr (Fin False 1)"
    using Beta_CDF_At_1 [of "Fin False 1" E] by (simp add: lits sval_def)
  show "feq (fsub (Fin False 1) (Fin False 1)) (lit 0)" by code_simp
qed

lemma Pinv_quarter_0_2:
  "cdf_beta_Pinv E (Fin False (1 / 4)) (Fin False 0) (Fin False 2) = Some (Inr (lit 999))"
proof (rule Pinv_fail)
  show "\<not> flt (Fin False 2) (lit (1 / 10))" by (simp add: lits sval_def)
  show "fdiv (Fin False (1 / 4)) (fadd (Fin False (1 / 4)) (Fin False 0)) = Fin False 1"
    by (rule mean_quarter_0)
  show "fgt (fabs (lit 999999)) (fmul (lit (1 / 10 ^ 11)) (Fin False 1))" by (rule loop_entered)
  show "Beta_CDF_At E (Fin False (1 / 4)) (Fin False 0) (Fin False 1) = Inr (Fin False 1)"
    using Beta_CDF_At_1 [of "Fin False 1" E] by (simp add: lits sval_def)
  show "\<not> feq (fsub (Fin False 2) (Fin False 1)) (lit 0)" by code_simp
  show "fgt (fabs (fsub (Fin False 2) (Fin False 1))) (fmul tol (Fin False 2))" by code_simp
qed

lemma sub_1_3quarter: "fsub (Fin False 1) (Fin False (3 / 4)) = Fin False (1 / 4)" by code_simp
lemma sub_1_1: "fsub (Fin False 1) (Fin False 1) = Fin False 0" by code_simp
lemma sub_1_999: "fsub (Fin False 1) (Fin False 999) = Fin True 998" by code_simp

text \<open>
  C4 says the loop goes on while the residual exceeds \<open>tol \<sqdot> p\<close> and fewer than 64 passes
  were made, and gives up only after 64. The source tests \<^verbatim>\<open>math.Abs(dP) > tol*p\<close> inside the
  loop, at the end of every pass, and leaves with the sentinel at once: a pass that starts
  with any \<open>n < 64\<close> and finds a residual above \<open>tol \<sqdot> p\<close> ends the loop with \<open>999.0\<close>.
\<close>

theorem refine_gives_up_in_first_pass:
  assumes "fgt (fabs step0) (fmul (lit (1 / 10 ^ 11)) x)"
    and "Beta_CDF_At E \<alpha> \<beta> x = Inr c"
    and "fgt (fabs (fsub p c)) (fmul tol p)"
    and "\<not> feq (fsub p c) (lit 0)"
    and "n < 64"
  shows "snd (refine E \<alpha> \<beta> p mean x step0 n) = Inr (lit 999)"
  using assms by (intro refine_fail) simp_all

theorem refine_gives_up_in_first_pass_witness:
  "fgt (fabs (lit 999999)) (fmul (lit (1 / 10 ^ 11)) (lit 0)) \<and>
   Beta_CDF_At uniform_env (lit 0) (lit 1) (lit 0) = Inr (lit 0) \<and>
   fgt (fabs (fsub (lit (1 / 4)) (lit 0))) (fmul tol (lit (1 / 4))) \<and>
   \<not> feq (fsub (lit (1 / 4)) (lit 0)) (lit 0) \<and>
   (0::nat) < 64 \<and>
   snd (refine uniform_env (lit 0) (lit 1) (lit (1 / 4)) (lit 0) (lit 0) (lit 999999) 0)
     = Inr (lit 999)"
proof -
  have a: "fgt (fabs (lit 999999)) (fmul (lit (1 / 10 ^ 11)) (lit 0))"
    using loop_entered(1) by (simp add: lit_0)
  have b: "Beta_CDF_At uniform_env (lit 0) (lit 1) (lit 0) = Inr (lit 0)"
    using Beta_CDF_At_0 [of "lit 0"] by (simp add: lits sval_def)
  have c: "fgt (fabs (fsub (lit (1 / 4)) (lit 0))) (fmul tol (lit (1 / 4)))" by code_simp
  have d: "\<not> feq (fsub (lit (1 / 4)) (lit 0)) (lit 0)" by code_simp
  have e: "(0::nat) < 64" by simp
  show ?thesis
    using refine_gives_up_in_first_pass [OF a b c d e] a b c d by simp
qed

text \<open>
  C3 says a call that returns a number returns one in \<open>[0,1]\<close>, never the sentinel. On the
  valid input \<open>\<alpha> = 0\<close>, \<open>\<beta> = 1\<close>, \<open>p = 1/4\<close> the source returns \<open>999.0\<close>, and on \<open>\<alpha> = 2\<close>,
  \<open>\<beta> = 0\<close>, \<open>p = 3/4\<close> it returns \<open>1 - 999.0\<close>; neither run reads an outside function's result.
\<close>

theorem BetaInv_CDF_For_returns_sentinel:
  "BetaInv_CDF_For E (lit 0) (lit 1) (lit (1 / 4)) = Some (Inr (lit 999)) \<and>
   BetaInv_CDF_For E (lit 2) (lit 0) (lit (3 / 4)) = Some (Inr (fsub (lit 1) (lit 999))) \<and>
   fgt (lit 999) (lit 1) \<and> flt (fsub (lit 1) (lit 999)) (lit 0)"
  by (simp add: BetaInv_CDF_For_def lits fgt_def sval_def Pinv_0_1_quarter Pinv_quarter_0_2
      sub_1_3quarter sub_1_999)

text \<open>
  What the branch for \<open>p > 0.5\<close> computes, for every input that reaches it: the solver is
  called with \<open>1 - p\<close> in the place of its first shape parameter, \<open>\<beta>\<close> in the place of the
  second and \<open>\<alpha>\<close> in the place of the probability.
\<close>

lemma upper_half_call:
  assumes "\<not> flt p (lit 0)" and "\<not> fgt p (lit 1)" and "\<not> flt \<alpha> (lit 0)" and "\<not> flt \<beta> (lit 0)"
    and "\<not> feq p (lit 0)" and "\<not> feq p (lit 1)" and "fgt p (lit (1 / 2))"
  shows "BetaInv_CDF_For E \<alpha> \<beta> p =
         map_option (map_sum id (fsub (lit 1))) (cdf_beta_Pinv E (fsub (lit 1) p) \<beta> \<alpha>)"
  using assms by (simp add: BetaInv_CDF_For_def split: option.splits sum.splits)

text \<open>
  C1 says that for \<open>p > 0.5\<close> the result is \<open>1 - cdf_beta_Pinv(\<beta>, \<alpha>, 1 - p)\<close>. The source calls
  \<^verbatim>\<open>cdf_beta_Pinv(1-p, \<beta>, \<alpha>)\<close>, whose parameters are \<^verbatim>\<open>(\<alpha>, \<beta>, p)\<close>: the solver runs with shape
  \<open>(1 - p, \<beta>)\<close> at probability \<open>\<alpha>\<close>. At \<open>\<alpha> = 1\<close>, \<open>\<beta> = 0\<close>, \<open>p = 3/4\<close> the source returns \<open>0\<close>, while
  \<open>cdf_beta_Pinv(\<beta>, \<alpha>, 1 - p)\<close> is \<open>999\<close> and one minus it \<open>-998\<close>.
\<close>

theorem BetaInv_CDF_For_upper_half_arguments:
  "BetaInv_CDF_For E (lit 1) (lit 0) (lit (3 / 4)) = Some (Inr (lit 0)) \<and>
   cdf_beta_Pinv E (lit 0) (lit 1) (fsub (lit 1) (lit (3 / 4))) = Some (Inr (lit 999)) \<and>
   fsub (lit 1) (lit 999) = Fin True 998"
  by (simp add: BetaInv_CDF_For_def lits fgt_def sval_def Pinv_0_1_quarter Pinv_quarter_0_1
      sub_1_3quarter sub_1_1 sub_1_999)

section \<open>The uniform distribution\<close>

lemma cf_steps:
  "fadd (Fin False 1) (Fin False 1) = Fin False 2"
  "fmul (Fin False 2) (Fin False (1 / 2)) = Fin False 1"
  "fdiv (Fin False 1) (Fin False 2) = Fin False (1 / 2)"
  "fsub (Fin False 1) (Fin False (1 / 2)) = Fin False (1 / 2)"
  "fdiv (Fin False 1) (Fin False (1 / 2)) = Fin False 2"
  "f64_of_nat (Suc 0) = Fin False 1"
  "fmul (Fin False 2) (Fin False 1) = Fin False 2"
  "fadd (Fin False 0) (Fin False 2) = Fin False 2"
  "fadd (Fin False 1) (Fin False 2) = Fin False 3"
  "fmul (Fin False 2) (Fin False 3) = Fin False 6"
  "fmul (Fin False 1) (Fin False 0) = Fin False 0"
  "fmul (Fin False 0) (Fin False (1 / 2)) = Fin False 0"
  "fdiv (Fin False 0) (Fin False 6) = Fin False 0"
  "fmul (Fin False 0) (Fin False 2) = Fin False 0"
  "fadd (Fin False 1) (Fin False 0) = Fin False 1"
  "fdiv (Fin False 0) (Fin False 1) = Fin False 0"
  "fdiv (Fin False 1) (Fin False 1) = Fin False 1"
  "fmul (Fin False 1) (Fin False 1) = Fin False 1"
  "fadd (Fin False 2) (Fin False 2) = Fin False 4"
  "fmul (Fin False 3) (Fin False 4) = Fin False 12"
  "fadd (Fin False 2) (Fin False 1) = Fin False 3"
  "fmul (Fin True 2) (Fin False 3) = Fin True 6"
  "fmul (Fin True 6) (Fin False (1 / 2)) = Fin True 3"
  "fdiv (Fin True 3) (Fin False 12) = Fin True (1 / 4)"
  "fmul (Fin True (1 / 4)) (Fin False 1) = Fin True (1 / 4)"
  "fadd (Fin False 1) (Fin True (1 / 4)) = Fin False (3 / 4)"
  "fdiv (Fin True (1 / 4)) (Fin False 1) = Fin True (1 / 4)"
  "fdiv (Fin False 1) (Fin False (3 / 4)) = Fin False (6004799503160661 / 4503599627370496)"
  "fmul (Fin False (6004799503160661 / 4503599627370496)) (Fin False (3 / 4)) = Fin False 1"
  "fdiv (Fin False 2) (Fin False 4) = Fin False (1 / 2)"
  "fmul (Fin False (1 / 4)) (Fin False 2) = Fin False (1 / 2)"
  "fdiv (Fin False (1 / 2)) (Fin False 1) = Fin False (1 / 2)"
  by code_simp+

lemma cf_tests:
  "\<not> flt (Fin False (1 / 2)) eps" "\<not> flt (Fin False 1) eps" "\<not> flt (Fin False (3 / 4)) eps"
  "flt (Fin False 0) acc"
  by (simp_all add: eps_val acc_val sval_def)

text \<open>With \<open>\<beta> = 1\<close> the continued fraction ends in its first pass: at \<open>x = 1/2\<close> it is \<open>2\<close>.\<close>

lemma cf_1_1_half:
  "snd (betaContinuedFraction (Fin False 1) (Fin False 1) (Fin False (1 / 2))) = Inr (Fin False 2)"
  unfolding betaContinuedFraction_def
  by (subst cf_loop.simps)
    (simp add: cf_pass_def Let_def lits cf_steps sub_1_1 cf_tests maxIter_def
      del: fadd.simps fmul.simps fdiv.simps)

lemma cdf_uniform_half:
  "Beta_CDF_At uniform_env (lit 1) (lit 1) (lit (1 / 2)) = Inr (lit (1 / 2))"
  by (simp add: Beta_CDF_At_def Beta_CDF_def Let_def lits uniform_env_def cf_steps cf_1_1_half
      sval_def del: fadd.simps fmul.simps fdiv.simps)

lemma above_tol_not_zero:
  assumes "fgt (fabs d) (Fin False t)" and "0 \<le> t"
  shows "\<not> feq d (lit 0)"
  using assms by (cases d) (auto simp: fgt_def lit_0 sval_def split: if_splits)

lemma tol_quarter: "fmul tol (Fin False (1 / 4)) = Fin False (1 / 2 ^ 28)"
  by code_simp

text \<open>
  C2 says \<^verbatim>\<open>BetaInv_CDF_For(1, 1, p)\<close> is \<open>p\<close> on all of \<open>[0,1]\<close>. At \<open>p = 1/4\<close> the first guess is
  the mean \<open>1/2\<close>; whenever \<^verbatim>\<open>Beta_CDF_At(1, 1, 1/2)\<close> is further than \<open>tol \<sqdot> p\<close> from \<open>1/4\<close> (its
  true value is \<open>1/2\<close>), the first pass ends the loop and the call returns \<open>999.0\<close>, not \<open>1/4\<close>.
\<close>

theorem BetaInv_CDF_For_uniform_quarter:
  assumes "Beta_CDF_At E (lit 1) (lit 1) (lit (1 / 2)) = Inr c"
    and "fgt (fabs (fsub (lit (1 / 4)) c)) (fmul tol (lit (1 / 4)))"
  shows "BetaInv_CDF_For E (lit 1) (lit 1) (lit (1 / 4)) = Some (Inr (lit 999)) \<and>
         \<not> feq (lit 999) (lit (1 / 4))"
proof -
  have "cdf_beta_Pinv E (Fin False 1) (Fin False 1) (Fin False (1 / 4)) = Some (Inr (lit 999))"
  proof (rule Pinv_fail)
    show "\<not> flt (Fin False (1 / 4)) (lit (1 / 10))" by (simp add: lits sval_def)
    show "fdiv (Fin False 1) (fadd (Fin False 1) (Fin False 1)) = Fin False (1 / 2)"
      by (simp only: cf_steps)
    show "fgt (fabs (lit 999999)) (fmul (lit (1 / 10 ^ 11)) (Fin False (1 / 2)))"
      by (rule loop_entered)
    show "Beta_CDF_At E (Fin False 1) (Fin False 1) (Fin False (1 / 2)) = Inr c"
      using assms(1) by (simp add: lits)
    show "fgt (fabs (fsub (Fin False (1 / 4)) c)) (fmul tol (Fin False (1 / 4)))"
      using assms(2) by (simp add: lits)
    then show "\<not> feq (fsub (Fin False (1 / 4)) c) (lit 0)"
      unfolding tol_quarter by (rule above_tol_not_zero) simp
  qed
  then show ?thesis
    by (simp add: BetaInv_CDF_For_def lits fgt_def sval_def)
qed

theorem BetaInv_CDF_For_uniform_quarter_witness:
  "Beta_CDF_At uniform_env (lit 1) (lit 1) (lit (1 / 2)) = Inr (lit (1 / 2)) \<and>
   fgt (fabs (fsub (lit (1 / 4)) (lit (1 / 2)))) (fmul tol (lit (1 / 4))) \<and>
   BetaInv_CDF_For uniform_env (lit 1) (lit 1) (lit (1 / 4)) = Some (Inr (lit 999))"
proof -
  have far: "fgt (fabs (fsub (lit (1 / 4)) (lit (1 / 2)))) (fmul tol (lit (1 / 4)))"
    by code_simp
  show ?thesis
    using BetaInv_CDF_For_uniform_quarter [OF cdf_uniform_half far] cdf_uniform_half far
    by simp
qed

section \<open>Divisors of the continued fraction\<close>

lemma clamp_nonzero: "\<not> feq (if flt (fabs d) eps then eps else d) (lit 0)"
  by (cases d) (auto simp: eps_val lit_0 sval_def split: if_splits)

lemma at_least_nonzero: "at_least c v \<Longrightarrow> 0 < c \<Longrightarrow> \<not> feq v (lit 0)"
  by (cases v) (auto simp: at_least_def lit_0 sval_def split: if_splits)

lemma at_least_weaken: "at_least c v \<Longrightarrow> c' \<le> c \<Longrightarrow> at_least c' v"
  by (cases v) (auto simp: at_least_def)

lemma rnd_at_least:
  assumes "- 1022 \<le> k" and "pow2 k \<le> q"
  shows "at_least (pow2 k) (rnd False q)"
proof -
  from rnd_ge_pow2 [OF assms, of False] pow2_nonneg [of k]
  show ?thesis by (auto simp: at_least_def sval_def)
qed

lemma fadd_at_least:
  assumes "at_least a x" and "at_least b y" and "pow2 k \<le> a + b" and "- 1022 \<le> k"
  shows "at_least (pow2 k) (fadd x y)"
proof (cases x)
  case NaN
  then show ?thesis using assms(1) by (simp add: at_least_def)
next
  case (Inf s)
  then show ?thesis using assms(1,2) by (cases y) (auto simp: at_least_def)
next
  case xf: (Fin s p)
  show ?thesis
  proof (cases y)
    case NaN
    then show ?thesis using assms(2) by (simp add: at_least_def)
  next
    case (Inf t)
    then show ?thesis using assms(2) xf by (auto simp: at_least_def)
  next
    case (Fin t q)
    have r: "pow2 k \<le> sval s p + sval t q"
      using assms(1,2,3) xf Fin by (simp add: at_least_def)
    then have pos: "0 < sval s p + sval t q" using pow2_pos [of k] by linarith
    have "fadd x y = rnd False (sval s p + sval t q)"
      using pos by (simp add: xf Fin Let_def)
    then show ?thesis using rnd_at_least [OF assms(4) r] by simp
  qed
qed

lemma fmul_at_least:
  assumes "at_least 1 x" and "at_least 1 y"
  shows "at_least 1 (fmul x y)"
proof (cases x)
  case NaN
  then show ?thesis using assms(1) by (simp add: at_least_def)
next
  case (Inf s)
  then show ?thesis using assms(1,2) by (cases y) (auto simp: at_least_def sval_def split: if_splits)
next
  case xf: (Fin s p)
  have p: "\<not> s" "1 \<le> p" using assms(1) xf by (auto simp: at_least_def sval_def split: if_splits)
  show ?thesis
  proof (cases y)
    case NaN
    then show ?thesis using assms(2) by (simp add: at_least_def)
  next
    case (Inf t)
    then show ?thesis using assms(2) xf p by (auto simp: at_least_def)
  next
    case (Fin t q)
    have q: "\<not> t" "1 \<le> q" using assms(2) Fin by (auto simp: at_least_def sval_def split: if_splits)
    have "1 * 1 \<le> p * q" using p(2) q(2) by (intro mult_mono) simp_all
    then have "pow2 0 \<le> p * q" by (simp add: pow2_0)
    from rnd_at_least [OF _ this] show ?thesis
      using p(1) q(1) by (simp add: xf Fin pow2_0)
  qed
qed

text \<open>A float64 above zero is \<open>+Inf\<close> or has a positive magnitude.\<close>

lemma positive_f64:
  assumes "is_f64 a" and "fgt a (lit 0)"
  obtains "a = Inf False" | q where "a = Fin False q" "0 < q"
  using assms by (cases a) (auto simp: fgt_def lit_0 sval_def split: if_splits)

lemma positive_at_least: "is_f64 a \<Longrightarrow> fgt a (lit 0) \<Longrightarrow> at_least 0 a"
  by (erule (1) positive_f64) (simp_all add: at_least_def sval_def)

lemma minus_one_at_least:
  assumes "is_f64 a" and "fgt a (lit 0)"
  shows "at_least (- 1) (fsub a (lit 1))"
  using assms
proof (cases rule: positive_f64)
  case 1
  then show ?thesis by (simp add: fsub_def lit_1 at_least_def)
next
  case (2 q)
  consider "q = 1" | "1 < q" | "q < 1" by linarith
  then show ?thesis
  proof cases
    case 1
    then show ?thesis using 2 by (simp add: fsub_def lit_1 at_least_def sval_def)
  next
    case 2
    have "0 \<le> q - 1" using 2 by simp
    from rnd_shape [OF this, of False] 2 \<open>a = Fin False q\<close>
    show ?thesis
      by (auto simp: fsub_def lit_1 at_least_def sval_def)
  next
    case 3
    have "1 - q \<le> pow2 0" "0 \<le> 1 - q" using 3 \<open>0 < q\<close> by (simp_all add: pow2_0)
    from rnd_le_pow2 [OF _ _ this(2,1), of True] 3 \<open>a = Fin False q\<close>
    show ?thesis
      by (auto simp: fsub_def lit_1 at_least_def sval_def pow2_0)
  qed
qed

lemma f64_of_nat_at_least: "1 \<le> i \<Longrightarrow> at_least 1 (f64_of_nat i)"
proof -
  assume "1 \<le> i"
  then have "pow2 0 \<le> rat_of_nat i" by (simp add: pow2_0)
  from rnd_at_least [OF _ this] show ?thesis
    by (simp add: f64_of_nat_def lit_def pow2_0)
qed

lemma twice_at_least:
  assumes "at_least 1 m"
  shows "at_least 2 (fmul (lit 2) m)"
proof (cases m)
  case NaN
  then show ?thesis using assms by (simp add: at_least_def)
next
  case (Inf s)
  then show ?thesis using assms by (simp add: at_least_def lit_2)
next
  case (Fin s q)
  have q: "\<not> s" "1 \<le> q" using assms Fin by (auto simp: at_least_def sval_def split: if_splits)
  have "pow2 1 \<le> 2 * q" using q(2) by (simp add: pow2_1)
  from rnd_at_least [OF _ this] show ?thesis
    using q(1) by (simp add: Fin lit_2 pow2_1)
qed

lemma cf_pass_guarded:
  assumes "\<not> feq c (lit 0)" and "cf_pass \<alpha> \<beta> x i d c res = (divs, del, d', c', res')"
  shows "\<forall>(st, v) \<in> set divs. st \<noteq> Term_den \<longrightarrow> \<not> feq v (lit 0)" and "\<not> feq c' (lit 0)"
proof -
  from assms(2) [symmetric] show "\<forall>(st, v) \<in> set divs. st \<noteq> Term_den \<longrightarrow> \<not> feq v (lit 0)"
    unfolding cf_pass_def Let_def using assms(1) by (simp add: clamp_nonzero)
  from assms(2) [symmetric] show "\<not> feq c' (lit 0)"
    unfolding cf_pass_def Let_def by (simp add: clamp_nonzero)
qed

lemma cf_loop_guarded:
  "\<not> feq c (lit 0) \<Longrightarrow>
   \<forall>(st, v) \<in> set (fst (cf_loop \<alpha> \<beta> x i d c res)). st \<noteq> Term_den \<longrightarrow> \<not> feq v (lit 0)"
proof (induction \<alpha> \<beta> x i d c res rule: cf_loop.induct)
  case (1 \<alpha> \<beta> x i d c res)
  show ?case
  proof (cases "maxIter < i")
    case True
    then show ?thesis by (subst cf_loop.simps) simp
  next
    case False
    obtain divs del d' c' res' where pass: "cf_pass \<alpha> \<beta> x i d c res = (divs, del, d', c', res')"
      by (metis prod_cases5)
    note g = cf_pass_guarded [OF "1.prems" pass]
    show ?thesis
    proof (cases "flt (fabs (fsub del (lit 1))) acc")
      case True
      then show ?thesis using False g(1) by (subst cf_loop.simps) (simp add: pass)
    next
      case nc: False
      have "\<forall>(st, v) \<in> set (fst (cf_loop \<alpha> \<beta> x (Suc i) d' c' res')). st \<noteq> Term_den \<longrightarrow> \<not> feq v (lit 0)"
        using "1.IH" [OF False pass [symmetric] refl refl refl nc g(2)] .
      then show ?thesis using False nc g(1)
        by (subst cf_loop.simps) (auto simp: pass split_beta)
    qed
  qed
qed

lemma cf_pass_denominators:
  assumes "is_f64 \<alpha>" and "fgt \<alpha> (lit 0)" and "1 \<le> i"
    and "cf_pass \<alpha> \<beta> x i d c res = (divs, del, d', c', res')"
  shows "\<forall>(st, v) \<in> set divs. st = Term_den \<longrightarrow> at_least 1 v"
proof -
  have a0: "at_least 0 \<alpha>" using assms(1,2) by (rule positive_at_least)
  have qam: "at_least (- 1) (fsub \<alpha> (lit 1))" using assms(1,2) by (rule minus_one_at_least)
  have one: "at_least 1 (lit 1)" by (simp add: lit_1 at_least_def sval_def)
  have m2: "at_least 2 (fmul (lit 2) (f64_of_nat i))"
    using assms(3) by (intro twice_at_least f64_of_nat_at_least)
  have qap: "at_least 1 (fadd \<alpha> (lit 1))"
    using fadd_at_least [OF a0 one, of 0] by (simp add: pow2_0)
  have s1: "at_least 1 (fadd (fsub \<alpha> (lit 1)) (fmul (lit 2) (f64_of_nat i)))"
    using fadd_at_least [OF qam m2, of 0] by (simp add: pow2_0)
  have s2: "at_least 1 (fadd \<alpha> (fmul (lit 2) (f64_of_nat i)))"
    using fadd_at_least [OF a0 m2, of 0] by (simp add: pow2_0)
  have s3: "at_least 1 (fadd (fadd \<alpha> (lit 1)) (fmul (lit 2) (f64_of_nat i)))"
    using fadd_at_least [OF qap m2, of 0] by (simp add: pow2_0)
  note dens = fmul_at_least [OF s1 s2] fmul_at_least [OF s2 s3]
  from assms(4) [symmetric] show ?thesis
    unfolding cf_pass_def Let_def using dens by simp
qed

lemma cf_loop_denominators:
  "is_f64 \<alpha> \<Longrightarrow> fgt \<alpha> (lit 0) \<Longrightarrow> 1 \<le> i \<Longrightarrow>
   \<forall>(st, v) \<in> set (fst (cf_loop \<alpha> \<beta> x i d c res)). st = Term_den \<longrightarrow> at_least 1 v"
proof (induction \<alpha> \<beta> x i d c res rule: cf_loop.induct)
  case (1 \<alpha> \<beta> x i d c res)
  show ?case
  proof (cases "maxIter < i")
    case True
    then show ?thesis by (subst cf_loop.simps) simp
  next
    case False
    obtain divs del d' c' res' where pass: "cf_pass \<alpha> \<beta> x i d c res = (divs, del, d', c', res')"
      by (metis prod_cases5)
    note g = cf_pass_denominators [OF "1.prems" pass]
    show ?thesis
    proof (cases "flt (fabs (fsub del (lit 1))) acc")
      case True
      then show ?thesis using False g by (subst cf_loop.simps) (simp add: pass)
    next
      case nc: False
      have "\<forall>(st, v) \<in> set (fst (cf_loop \<alpha> \<beta> x (Suc i) d' c' res')). st = Term_den \<longrightarrow> at_least 1 v"
        using "1.IH" [OF False pass [symmetric] refl refl refl nc "1.prems"(1,2)] by simp
      then show ?thesis using False nc g
        by (subst cf_loop.simps) (auto simp: pass split_beta)
    qed
  qed
qed

lemma cf_trace_split:
  "fst (betaContinuedFraction \<alpha> \<beta> x) =
     (Term_den, fadd \<alpha> (lit 1)) #
     (Recip_d, (if flt (fabs (fsub (lit 1) (fdiv (fmul (fadd \<alpha> \<beta>) x) (fadd \<alpha> (lit 1))))) eps then eps
                else fsub (lit 1) (fdiv (fmul (fadd \<alpha> \<beta>) x) (fadd \<alpha> (lit 1))))) #
     fst (cf_loop \<alpha> \<beta> x 1
            (fdiv (lit 1) (if flt (fabs (fsub (lit 1) (fdiv (fmul (fadd \<alpha> \<beta>) x) (fadd \<alpha> (lit 1))))) eps
                           then eps else fsub (lit 1) (fdiv (fmul (fadd \<alpha> \<beta>) x) (fadd \<alpha> (lit 1)))))
            (lit 1)
            (fdiv (lit 1) (if flt (fabs (fsub (lit 1) (fdiv (fmul (fadd \<alpha> \<beta>) x) (fadd \<alpha> (lit 1))))) eps
                           then eps else fsub (lit 1) (fdiv (fmul (fadd \<alpha> \<beta>) x) (fadd \<alpha> (lit 1))))))"
  by (simp add: betaContinuedFraction_def Let_def split_beta)

lemma one_nonzero: "\<not> feq (lit 1) (lit 0)"
  by (simp add: lit_0 lit_1 sval_def)

text \<open>
  C10, amended. In \<^verbatim>\<open>betaContinuedFraction\<close> the divisor of every reciprocal \<^verbatim>\<open>1.0 / d\<close> and of
  every quotient \<^verbatim>\<open>aa / c\<close> is non-zero, for all inputs: each was set to \<open>eps\<close> when its
  magnitude was below \<open>eps\<close>. The other divisions (by \<^verbatim>\<open>qap\<close> and by the two products of
  every pass) have no guard; when \<open>\<alpha>\<close> is a float64 above zero their divisors are at least
  \<open>1\<close>, so that then no division of the evaluation has a zero divisor.
\<close>

theorem betaContinuedFraction_divisors:
  "(\<forall>(st, v) \<in> set (fst (betaContinuedFraction \<alpha> \<beta> x)). st \<noteq> Term_den \<longrightarrow> \<not> feq v (lit 0)) \<and>
   (is_f64 \<alpha> \<and> fgt \<alpha> (lit 0) \<longrightarrow>
      (\<forall>(st, v) \<in> set (fst (betaContinuedFraction \<alpha> \<beta> x)). \<not> feq v (lit 0)))"
proof (intro conjI impI)
  show g: "\<forall>(st, v) \<in> set (fst (betaContinuedFraction \<alpha> \<beta> x)). st \<noteq> Term_den \<longrightarrow> \<not> feq v (lit 0)"
    unfolding cf_trace_split using cf_loop_guarded [OF one_nonzero]
    by (simp add: clamp_nonzero)
  assume a: "is_f64 \<alpha> \<and> fgt \<alpha> (lit 0)"
  have a0: "at_least 0 \<alpha>" using a by (intro positive_at_least) simp_all
  have one: "at_least 1 (lit 1)" by (simp add: lit_1 at_least_def sval_def)
  have qap: "at_least 1 (fadd \<alpha> (lit 1))"
    using fadd_at_least [OF a0 one, of 0] by (simp add: pow2_0)
  have t: "\<forall>(st, v) \<in> set (fst (betaContinuedFraction \<alpha> \<beta> x)). st = Term_den \<longrightarrow> at_least 1 v"
    unfolding cf_trace_split using cf_loop_denominators [of \<alpha> 1] a qap
    by simp
  show "\<forall>(st, v) \<in> set (fst (betaContinuedFraction \<alpha> \<beta> x)). \<not> feq v (lit 0)"
  proof (clarify)
    fix st v
    assume m: "(st, v) \<in> set (fst (betaContinuedFraction \<alpha> \<beta> x))" and z: "feq v (lit 0)"
    show False
    proof (cases "st = Term_den")
      case True
      then have "at_least 1 v" using t m by auto
      then show False using z at_least_nonzero [of 1 v] by simp
    next
      case False
      then show False using g m z by auto
    qed
  qed
qed

lemma lit_is_f64: "is_f64 (lit 1)" by code_simp

lemma one_positive: "fgt (lit 1) (lit 0)"
  by (simp add: lits fgt_def sval_def)

theorem betaContinuedFraction_divisors_witness:
  "is_f64 (lit 1) \<and> fgt (lit 1) (lit 0) \<and>
   (Term_den, lit 2) \<in> set (fst (betaContinuedFraction (lit 1) (lit 1) (lit (1 / 2)))) \<and>
   (Recip_d, lit (1 / 2)) \<in> set (fst (betaContinuedFraction (lit 1) (lit 1) (lit (1 / 2)))) \<and>
   \<not> feq (lit 2) (lit 0) \<and> \<not> feq (lit (1 / 2)) (lit 0)"
proof -
  have m1: "(Term_den, lit 2) \<in> set (fst (betaContinuedFraction (lit 1) (lit 1) (lit (1 / 2))))"
    unfolding cf_trace_split
    by (simp add: lits cf_steps del: fadd.simps fmul.simps fdiv.simps)
  have m2: "(Recip_d, lit (1 / 2)) \<in> set (fst (betaContinuedFraction (lit 1) (lit 1) (lit (1 / 2))))"
    unfolding cf_trace_split
    by (simp add: lits cf_steps cf_tests del: fadd.simps fmul.simps fdiv.simps)
  from betaContinuedFraction_divisors [of "lit 1" "lit 1" "lit (1 / 2)"] m1 m2 lit_is_f64 one_positive
  show ?thesis by blast
qed

text \<open>
  C10, as the spec states it: for all inputs no division by zero occurs anywhere in the
  evaluation. At \<open>\<alpha> = -1\<close> (with \<open>\<beta> = 2\<close>, \<open>x = 1/2\<close>) the first division, \<^verbatim>\<open>qab*x/qap\<close>, has the
  divisor \<^verbatim>\<open>qap\<close> \<open>= \<alpha> + 1 = 0\<close>.
\<close>

theorem betaContinuedFraction_divides_by_zero:
  "(Term_den, lit 0) \<in> set (fst (betaContinuedFraction (lit (- 1)) (lit 2) (lit (1 / 2)))) \<and>
   feq (lit 0) (lit 0)"
proof -
  have "fadd (Fin True 1) (Fin False 1) = Fin False 0" by code_simp
  then show ?thesis
    unfolding cf_trace_split
    by (simp add: lits lit_minus_1 sval_def del: fadd.simps fmul.simps fdiv.simps)
qed

section \<open>float64 values are fixed points of rounding\<close>

lemma rnd_exact_normal:
  assumes "2 ^ 52 \<le> n" and "n < 2 ^ 53" and "- 1022 \<le> e" and "e \<le> 1023"
  shows "rnd s (of_int n * pow2 (e - 52)) = Fin s (of_int n * pow2 (e - 52))"
proof -
  define u where "u = pow2 (e - 52)"
  have u: "0 < u" unfolding u_def by (rule pow2_pos)
  have lo: "pow2 e \<le> of_int n * u"
  proof -
    have "pow2 52 * u \<le> of_int n * u"
      using assms(1) u by (intro mult_right_mono of_int_ge_pow2) simp_all
    then show ?thesis by (simp only: u_def ulp_52')
  qed
  have hi: "of_int n * u < pow2 (e + 1)"
  proof -
    have "n + 1 \<le> 2 ^ 53" using assms(2) by simp
    then have "rat_of_int (n + 1) \<le> pow2 53" by (intro of_int_le_pow2) simp_all
    then have "rat_of_int n < pow2 53" by simp
    then have "of_int n * u < pow2 53 * u" using u by (simp only: mult_less_cancel_right_pos)
    then show ?thesis by (simp only: u_def ulp_53')
  qed
  have "of_int n * u / u = of_int n" using u by simp
  then have n: "rhe (of_int n * u / u) = n" by (simp only: rhe_of_int)
  show ?thesis
    using rnd_normal [OF lo hi assms(3), of s] assms(2,4) n
    by (simp add: u_def)
qed

lemma rnd_exact_subnormal:
  assumes "0 \<le> n" and "n < 2 ^ 52"
  shows "rnd s (of_int n * pow2 (- 1074)) = Fin s (of_int n * pow2 (- 1074))"
proof (cases "n = 0")
  case True
  then show ?thesis by (simp add: rnd_def)
next
  case False
  define u where "u = pow2 (- 1074)"
  have u: "0 < u" unfolding u_def by (rule pow2_pos)
  have pos: "0 < of_int n * u" using False assms(1) u by simp
  have hi: "of_int n * u < pow2 (- 1022)"
  proof -
    have "n + 1 \<le> 2 ^ 52" using assms(2) by simp
    then have "rat_of_int (n + 1) \<le> pow2 52" by (intro of_int_le_pow2) simp_all
    then have "rat_of_int n < pow2 52" by simp
    then have "of_int n * u < pow2 52 * u" using u by (simp only: mult_less_cancel_right_pos)
    then show ?thesis using ulp_52' [of "- 1022"] by (simp add: u_def)
  qed
  have "of_int n * u / u = of_int n" using u by simp
  then have n: "rhe (of_int n * u / u) = n" by (simp only: rhe_of_int)
  show ?thesis
    using rnd_subnormal [OF pos hi, of s] n by (simp add: u_def)
qed

lemma rnd_exact_pow2:
  assumes "- 1022 \<le> k" and "k \<le> 1023"
  shows "rnd s (pow2 k) = Fin s (pow2 k)"
proof -
  have "rat_of_int (2 ^ 52) = pow2 52" by (simp add: pow2_nat)
  then have "rat_of_int (2 ^ 52) * pow2 (k - 52) = pow2 k" by (simp only: ulp_52')
  with rnd_exact_normal [of "2 ^ 52" k s] assms show ?thesis by simp
qed

lemma rnd_idem:
  assumes "0 \<le> q" and "rnd s q = Fin t v"
  shows "rnd t v = Fin t v"
  using assms(1)
proof (cases rule: rnd_forms [of q s])
  case zero
  then show ?thesis using assms(2) by (auto simp: rnd_def)
next
  case (subnormal n)
  have tv: "t = s" "v = of_int n * pow2 (- 1074)" using subnormal(3) assms(2) by simp_all
  show ?thesis
  proof (cases "n = 2 ^ 52")
    case True
    have "rat_of_int n = pow2 52" unfolding True by (simp add: pow2_nat)
    then have "v = pow2 (- 1022)" using ulp_52' [of "- 1022"] by (simp add: tv)
    then show ?thesis using rnd_exact_pow2 [of "- 1022" t] by simp
  next
    case False
    then have "n < 2 ^ 52" using subnormal(6) by simp
    then show ?thesis unfolding tv using subnormal(5) by (intro rnd_exact_subnormal)
  qed
next
  case (normal e n)
  have fin: "\<not> (1023 < e \<or> (e = 1023 \<and> n = 2 ^ 53))"
    using normal(7) assms(2) by (auto split: if_splits)
  have tv: "t = s" "v = of_int n * pow2 (e - 52)"
    using normal(7) assms(2) fin by (auto split: if_splits)
  show ?thesis
  proof (cases "n = 2 ^ 53")
    case True
    have "rat_of_int n = pow2 53" unfolding True by (simp add: pow2_nat)
    then have "v = pow2 (e + 1)" by (simp only: tv ulp_53')
    moreover have "e + 1 \<le> 1023" "- 1022 \<le> e + 1" using fin True normal(3) by simp_all
    ultimately show ?thesis using rnd_exact_pow2 [of "e + 1" t] by simp
  next
    case False
    then have "n < 2 ^ 53" using normal(6) by simp
    moreover have "e \<le> 1023" using fin by simp
    ultimately show ?thesis unfolding tv using normal(3,5) by (intro rnd_exact_normal)
  qed
qed

lemma rnd_is_f64: "0 \<le> q \<Longrightarrow> is_f64 (rnd s q)"
proof -
  assume q: "0 \<le> q"
  show ?thesis
  proof (cases "rnd s q")
    case (Fin t v)
    from rnd_sign_mag [OF q Fin] rnd_idem [OF q Fin] show ?thesis by (simp add: Fin)
  qed simp_all
qed

lemma fadd_is_f64: "is_f64 (fadd a b)"
proof (cases a)
  case NaN
  then show ?thesis by simp
next
  case (Inf s)
  then show ?thesis by (cases b) simp_all
next
  case af: (Fin s p)
  show ?thesis
  proof (cases b)
    case (Fin t q)
    show ?thesis
      by (simp add: af Fin Let_def rnd_is_f64) (simp add: rnd_def)
  qed (simp_all add: af)
qed

lemma fmul_is_f64: "0 \<le> p \<Longrightarrow> 0 \<le> q \<Longrightarrow> is_f64 (fmul (Fin s p) (Fin t q))"
  by (simp add: rnd_is_f64)

section \<open>float64 values strictly between 0 and 1\<close>

lemma pow2_m1: "pow2 (- 1) = 1 / 2"
  by (simp add: pow2_def)

lemma pow2_53_inv: "pow2 53 * pow2 (- 53) = 1"
  using pow2_add [of 53 "- 53"] by (simp add: pow2_0)

lemma below_one_alt: "1 - pow2 (- 53) = (pow2 53 - 1) * pow2 (- 53)"
  using pow2_53_inv by (simp add: algebra_simps)

lemma half_below_one: "pow2 (- 1) \<le> 1 - pow2 (- 53)"
proof -
  have "pow2 (- 53) \<le> pow2 (- 1)" by (rule pow2_mono) simp
  then show ?thesis by (simp add: pow2_m1)
qed

lemma small_exponent_below_one:
  assumes "e \<le> - 2" and "v \<le> pow2 (e + 1)"
  shows "v \<le> 1 - pow2 (- 53)"
proof -
  have "pow2 (e + 1) \<le> pow2 (- 1)" using assms(1) by (intro pow2_mono) simp
  with assms(2) half_below_one show ?thesis by linarith
qed

lemma significand_below_one:
  assumes "n < 2 ^ 53"
  shows "rat_of_int n * pow2 (- 53) \<le> 1 - pow2 (- 53)"
proof -
  have "n + 1 \<le> 2 ^ 53" using assms by simp
  then have "rat_of_int (n + 1) \<le> pow2 53" by (intro of_int_le_pow2) simp_all
  then have "rat_of_int n \<le> pow2 53 - 1" by simp
  then have "rat_of_int n * pow2 (- 53) \<le> (pow2 53 - 1) * pow2 (- 53)"
    by (intro mult_right_mono pow2_nonneg)
  then show ?thesis by (simp only: below_one_alt)
qed

lemma exponent_below_one:
  assumes "pow2 e \<le> q" and "q < 1"
  shows "e \<le> - 1"
proof (rule ccontr)
  assume "\<not> e \<le> - 1"
  then have "0 \<le> e" by simp
  then have "pow2 0 \<le> pow2 e" by (rule pow2_mono)
  with assms show False by (simp add: pow2_0)
qed

lemma rnd_below_one:
  assumes "0 \<le> q" and "q \<le> 1 - pow2 (- 53)"
  shows "\<exists>v. rnd s q = Fin s v \<and> 0 \<le> v \<and> v \<le> 1 - pow2 (- 53)"
  using assms(1)
proof (cases rule: rnd_forms [of q s])
  case zero
  have "pow2 (- 53) \<le> pow2 0" by (rule pow2_mono) simp
  then show ?thesis using zero by (simp add: pow2_0)
next
  case (subnormal n)
  have "of_int n * pow2 (- 1074) \<le> pow2 52 * pow2 (- 1074)"
    using subnormal(6) by (intro mult_right_mono of_int_le_pow2 pow2_nonneg) simp_all
  also have "\<dots> = pow2 (- 1023 + 1)" using ulp_52' [of "- 1022"] by simp
  finally have "of_int n * pow2 (- 1074) \<le> 1 - pow2 (- 53)"
    by (intro small_exponent_below_one [of "- 1023"]) simp_all
  moreover have "0 \<le> of_int n * pow2 (- 1074)"
    using subnormal(5) pow2_nonneg [of "- 1074"] by simp
  ultimately show ?thesis using subnormal(3) by simp
next
  case (normal e n)
  have "pow2 (- 53) > 0" by (rule pow2_pos)
  then have q1: "q < 1" using assms(2) by linarith
  have e: "e \<le> - 1" using normal(1) q1 by (rule exponent_below_one)
  have fin: "\<not> (1023 < e \<or> (e = 1023 \<and> n = 2 ^ 53))" using e by simp
  have nonneg: "0 \<le> of_int n * pow2 (e - 52)"
    using normal(5) pow2_nonneg [of "e - 52"] by simp
  have "of_int n * pow2 (e - 52) \<le> 1 - pow2 (- 53)"
  proof (cases "e = - 1")
    case True
    have "q / pow2 (- 53) \<le> (1 - pow2 (- 53)) / pow2 (- 53)"
      using assms(2) pow2_pos [of "- 53"] by (simp only: divide_le_cancel) simp
    also have "\<dots> = pow2 53 - 1"
      using pow2_pos [of "- 53"] by (simp add: below_one_alt)
    also have "\<dots> = rat_of_int (2 ^ 53 - 1)" by (simp add: pow2_nat)
    finally have "rhe (q / pow2 (- 53)) \<le> 2 ^ 53 - 1" by (rule rhe_le)
    then have "n < 2 ^ 53" using normal(4) True by simp
    then show ?thesis using significand_below_one [of n] True by simp
  next
    case False
    then have e2: "e \<le> - 2" using e by simp
    have "of_int n * pow2 (e - 52) \<le> pow2 53 * pow2 (e - 52)"
      using normal(6) by (intro mult_right_mono of_int_le_pow2 pow2_nonneg) simp_all
    then have "of_int n * pow2 (e - 52) \<le> pow2 (e + 1)" by (simp only: ulp_53')
    with e2 show ?thesis by (rule small_exponent_below_one)
  qed
  then show ?thesis using normal(7) fin nonneg by simp
qed

lemma rnd_positive:
  assumes "pow2 (- 1074) \<le> q"
  shows "rnd s q = Inf s \<or> (\<exists>v. rnd s q = Fin s v \<and> 0 < v)"
proof -
  have q: "0 \<le> q" using assms pow2_nonneg [of "- 1074"] by linarith
  then show ?thesis
  proof (cases rule: rnd_forms [of q s])
    case zero
    then show ?thesis using assms pow2_pos [of "- 1074"] by simp
  next
    case (subnormal n)
    have "rat_of_int 1 \<le> q / pow2 (- 1074)"
      using assms pow2_pos [of "- 1074"] by (simp add: pos_le_divide_eq)
    then have "1 \<le> rhe (q / pow2 (- 1074))" by (rule rhe_ge)
    then have "0 < rat_of_int n" using subnormal(4) by simp
    then show ?thesis using subnormal(3) pow2_pos [of "- 1074"] by simp
  next
    case (normal e n)
    have "0 < rat_of_int n" using normal(5) by simp
    then show ?thesis using normal(7) pow2_pos [of "e - 52"] by simp
  qed
qed

text \<open>What a float64 in the open unit interval looks like.\<close>

lemma unit_interval_f64:
  assumes "is_f64 a" and "fgt a (lit 0)" and "flt a (lit 1)"
  obtains q where "a = Fin False q" "pow2 (- 1074) \<le> q" "q \<le> 1 - pow2 (- 53)"
proof -
  from assms obtain q where a: "a = Fin False q" and q: "0 < q" "q < 1"
    and r: "rnd False q = Fin False q"
    by (cases a) (auto simp: fgt_def lit_0 lit_1 sval_def split: if_splits)
  have q0: "0 \<le> q" using q(1) by simp
  have "pow2 (- 1074) \<le> q \<and> q \<le> 1 - pow2 (- 53)"
    using q0
  proof (cases rule: rnd_forms [of q False])
    case zero
    then show ?thesis using q by simp
  next
    case (subnormal n)
    have qn: "q = of_int n * pow2 (- 1074)" using subnormal(3) r by simp
    have "0 < rat_of_int n" using q(1) pow2_pos [of "- 1074"] unfolding qn
      by (simp add: zero_less_mult_iff)
    then have "1 \<le> n" by simp
    then have "rat_of_int 1 \<le> of_int n" by (simp only: of_int_le_iff)
    then have "1 * pow2 (- 1074) \<le> of_int n * pow2 (- 1074)"
      by (intro mult_right_mono pow2_nonneg) simp
    then have lo: "pow2 (- 1074) \<le> q" by (simp add: qn)
    have "q \<le> pow2 (- 1023 + 1)" using subnormal(2) by simp
    then have "q \<le> 1 - pow2 (- 53)" by (intro small_exponent_below_one [of "- 1023"]) simp_all
    with lo show ?thesis by simp
  next
    case (normal e n)
    have e: "e \<le> - 1" using normal(1) q(2) by (rule exponent_below_one)
    have qn: "q = of_int n * pow2 (e - 52)" using normal(7) r e by simp
    have "pow2 (- 1074) \<le> pow2 e" using normal(3) by (intro pow2_mono) simp
    then have lo: "pow2 (- 1074) \<le> q" using normal(1) by linarith
    have "q \<le> 1 - pow2 (- 53)"
    proof (cases "e = - 1")
      case True
      have "rat_of_int n * pow2 (- 53) < pow2 53 * pow2 (- 53)"
        using q(2) qn True by (simp add: pow2_53_inv)
      then have "rat_of_int n < pow2 53"
        using pow2_pos [of "- 53"] by (simp only: mult_less_cancel_right_pos)
      then have "rat_of_int n < rat_of_int (2 ^ 53)" by (simp add: pow2_nat)
      then have "n < 2 ^ 53" by (simp only: of_int_less_iff)
      then show ?thesis using significand_below_one [of n] True qn by simp
    next
      case False
      then have "e \<le> - 2" using e by simp
      then show ?thesis using normal(2) by (intro small_exponent_below_one [of e]) simp_all
    qed
    with lo show ?thesis by simp
  qed
  with a that show ?thesis by blast
qed

section \<open>The square root\<close>

lemma isqrt_bounds: "isqrt n * isqrt n \<le> n \<and> n < (isqrt n + 1) * (isqrt n + 1)"
proof (induction n rule: isqrt.induct)
  case (1 n)
  show ?case
  proof (cases "n < 2")
    case True
    then have "n = 0 \<or> n = 1" by auto
    then show ?thesis by (subst (1 2 3 4) isqrt.simps) auto
  next
    case False
    define s where "s = isqrt (n div 4)"
    have ih: "s * s \<le> n div 4" "n div 4 < (s + 1) * (s + 1)"
      using "1.IH" [OF False] by (simp_all add: s_def)
    have A: "(2 * s) * (2 * s) \<le> n"
    proof -
      have "(2 * s) * (2 * s) = 4 * (s * s)" by simp
      also have "\<dots> \<le> 4 * (n div 4)" using ih(1) by simp
      also have "\<dots> \<le> n" by simp
      finally show ?thesis .
    qed
    have B: "n < (2 * s + 2) * (2 * s + 2)"
    proof -
      have "n < 4 * (n div 4 + 1)" by simp
      also have "\<dots> \<le> 4 * ((s + 1) * (s + 1))" using ih(2) by simp
      also have "\<dots> = (2 * s + 2) * (2 * s + 2)" by (simp add: algebra_simps)
      finally show ?thesis .
    qed
    have eq: "isqrt n = (if (2 * s + 1) * (2 * s + 1) \<le> n then 2 * s + 1 else 2 * s)"
      using False by (subst isqrt.simps) (simp add: s_def Let_def)
    show ?thesis
    proof (cases "(2 * s + 1) * (2 * s + 1) \<le> n")
      case True
      then show ?thesis using B by (simp add: eq algebra_simps)
    next
      case False
      then show ?thesis using A by (simp add: eq algebra_simps)
    qed
  qed
qed

lemma sqrt_rnd_bounds:
  assumes "pow2 (- 1074) \<le> q" and "q \<le> 1 - pow2 (- 53)"
  shows "pow2 (- 537) \<le> sqrt_rnd q" and "sqrt_rnd q \<le> 1 - pow2 (- 53)"
proof -
  have q: "0 < q" using assms(1) pow2_pos [of "- 1074"] by linarith
  have q1: "q < 1" using assms(2) pow2_pos [of "- 53"] by linarith
  define L where "L = ilog2 q"
  have L: "pow2 L \<le> q" "q < pow2 (L + 1)" using ilog2_bounds [OF q] by (simp_all add: L_def)
  have Llo: "- 1074 \<le> L" unfolding L_def using q assms(1) by (rule ilog2_ge)
  have Lhi: "L \<le> - 1" using L(1) q1 by (rule exponent_below_one)
  define e where "e = L div 2"
  have e: "2 * e \<le> L" "L \<le> 2 * e + 1" "- 537 \<le> e" "e \<le> - 1"
    using Llo Lhi by (simp_all add: e_def)
  define u where "u = pow2 (e - 52)"
  have u: "0 < u" unfolding u_def by (rule pow2_pos)
  have uu: "u * u = pow2 (2 * e - 104)"
    unfolding u_def by (simp add: pow2_add [symmetric])
  have uu_pos: "0 < u * u" using u by simp
  define t where "t = q / (u * u)"
  have t_lo: "pow2 104 \<le> t"
  proof -
    have "pow2 104 * (u * u) = pow2 (2 * e)" unfolding uu by (simp add: pow2_add [symmetric])
    also have "\<dots> \<le> pow2 L" using e(1) by (rule pow2_mono)
    also have "\<dots> \<le> q" by (rule L(1))
    finally show ?thesis unfolding t_def using uu_pos by (simp add: pos_le_divide_eq)
  qed
  have t_hi: "t < pow2 106"
  proof -
    have "q < pow2 (L + 1)" by (rule L(2))
    also have "\<dots> \<le> pow2 (2 * e + 2)" using e(2) by (intro pow2_mono) simp
    also have "\<dots> = pow2 106 * (u * u)"
      unfolding uu by (simp add: pow2_add [symmetric] add.commute)
    finally show ?thesis unfolding t_def using uu_pos by (simp add: pos_divide_less_eq)
  qed
  define F where "F = \<lfloor>t\<rfloor>"
  have F_lo: "2 ^ 104 \<le> F"
  proof -
    have "rat_of_int (2 ^ 104) \<le> t" using t_lo by (simp add: pow2_nat)
    then show ?thesis unfolding F_def by (simp only: le_floor_iff)
  qed
  have F_hi: "F < 2 ^ 106"
  proof -
    have "t < rat_of_int (2 ^ 106)" using t_hi by (simp add: pow2_nat)
    then show ?thesis unfolding F_def by (simp only: floor_less_iff)
  qed
  define f where "f = int (isqrt (nat F))"
  have f0: "0 \<le> f" by (simp add: f_def)
  have fF: "f * f \<le> F" "F < (f + 1) * (f + 1)"
  proof -
    have F0: "0 \<le> F" using F_lo by simp
    have "int (isqrt (nat F) * isqrt (nat F)) \<le> int (nat F)"
      using isqrt_bounds [of "nat F"] by (simp only: of_nat_le_iff)
    then show "f * f \<le> F" using F0 by (simp add: f_def)
    have "int (nat F) < int ((isqrt (nat F) + 1) * (isqrt (nat F) + 1))"
      using isqrt_bounds [of "nat F"] by (simp only: of_nat_less_iff)
    then show "F < (f + 1) * (f + 1)" using F0 by (simp add: f_def algebra_simps)
  qed
  have f_lo: "2 ^ 52 \<le> f"
  proof (rule ccontr)
    assume "\<not> 2 ^ 52 \<le> f"
    then have "f + 1 \<le> 2 ^ 52" by simp
    then have "(f + 1) * (f + 1) \<le> 2 ^ 52 * 2 ^ 52" using f0 by (intro mult_mono) simp_all
    with fF(2) F_lo show False by simp
  qed
  have f_hi: "f < 2 ^ 53"
  proof (rule ccontr)
    assume "\<not> f < 2 ^ 53"
    then have "2 ^ 53 \<le> f" by simp
    then have "2 ^ 53 * 2 ^ 53 \<le> f * f" by (intro mult_mono) simp_all
    with fF(1) F_hi show False by simp
  qed
  define h where "h = (rat_of_int f + 1 / 2) * (of_int f + 1 / 2)"
  define n where "n = (if t < h then f else if h < t then f + 1 else if even f then f else f + 1)"
  have res: "sqrt_rnd q = of_int n * u"
    by (simp add: sqrt_rnd_def Let_def n_def h_def f_def F_def t_def u_def e_def L_def)
  have n_lo: "f \<le> n" and n_hi: "n \<le> f + 1" by (simp_all add: n_def)
  show "pow2 (- 537) \<le> sqrt_rnd q"
  proof -
    have "pow2 (- 537) \<le> pow2 e" using e(3) by (rule pow2_mono)
    also have "\<dots> = pow2 52 * u" by (simp only: u_def ulp_52')
    also have "\<dots> \<le> of_int n * u"
      using f_lo n_lo u by (intro mult_right_mono of_int_ge_pow2) simp_all
    finally show ?thesis by (simp only: res)
  qed
  show "sqrt_rnd q \<le> 1 - pow2 (- 53)"
  proof (cases "e = - 1")
    case False
    then have e2: "e \<le> - 2" using e(4) by simp
    have "of_int n * u \<le> pow2 53 * u"
      using f_hi n_hi u by (intro mult_right_mono of_int_le_pow2) simp_all
    then have "of_int n * u \<le> pow2 (e + 1)" by (simp only: u_def ulp_53')
    with e2 show ?thesis unfolding res by (rule small_exponent_below_one)
  next
    case True
    have n53: "n < 2 ^ 53"
    proof (cases "f + 1 < 2 ^ 53")
      case True
      then show ?thesis using n_hi by simp
    next
      case False
      then have f: "f = 2 ^ 53 - 1" using f_hi by simp
      have "u * u = pow2 (- 106)" using uu \<open>e = - 1\<close> by simp
      then have tq: "t * pow2 (- 106) = q" unfolding t_def using uu_pos by simp
      have inv: "pow2 106 * pow2 (- 106) = 1" using pow2_add [of 106 "- 106"] by (simp add: pow2_0)
      have "q * pow2 106 = t * (pow2 106 * pow2 (- 106))"
        unfolding tq [symmetric] by (simp only: mult_ac)
      then have "t = q * pow2 106" by (simp only: inv mult_1_right)
      also have "\<dots> \<le> (1 - pow2 (- 53)) * pow2 106"
        using assms(2) by (intro mult_right_mono pow2_nonneg)
      also have "\<dots> = pow2 106 - pow2 53"
        using pow2_add [of "- 53" 106] by (simp add: algebra_simps)
      also have "\<dots> < h" unfolding h_def f by (simp add: pow2_nat algebra_simps)
      finally have "t < h" .
      then have "n = f" by (simp add: n_def)
      then show ?thesis using f_hi by simp
    qed
    show ?thesis
      unfolding res u_def using significand_below_one [OF n53] True by simp
  qed
qed

section \<open>The iterate of the refinement loop\<close>

lemma pow2_537: "pow2 (- 537) * pow2 (- 537) = pow2 (- 1074)"
  by (simp add: pow2_add [symmetric])

lemma sqrt_product_inside:
  assumes "is_f64 x" and "fgt x (lit 0)" and "flt x (lit 1)"
    and "is_f64 m" and "fgt m (lit 0)" and "flt m (lit 1)"
  shows "is_f64 (fmul (fsqrt x) (fsqrt m)) \<and> fgt (fmul (fsqrt x) (fsqrt m)) (lit 0) \<and>
         flt (fmul (fsqrt x) (fsqrt m)) (lit 1)"
proof -
  from assms(1,2,3) obtain q where x: "x = Fin False q"
    and q: "pow2 (- 1074) \<le> q" "q \<le> 1 - pow2 (- 53)" by (rule unit_interval_f64)
  from assms(4,5,6) obtain r where m: "m = Fin False r"
    and r: "pow2 (- 1074) \<le> r" "r \<le> 1 - pow2 (- 53)" by (rule unit_interval_f64)
  define a b where "a = sqrt_rnd q" and "b = sqrt_rnd r"
  note A = sqrt_rnd_bounds [OF q, folded a_def]
  note B = sqrt_rnd_bounds [OF r, folded b_def]
  have h: "0 < pow2 (- 53)" "0 < pow2 (- 537)" "0 < pow2 (- 1074)" by (rule pow2_pos)+
  have q0: "q \<noteq> 0" and r0: "r \<noteq> 0" using q(1) r(1) h(3) by auto
  have prod: "fmul (fsqrt x) (fsqrt m) = rnd False (a * b)"
    by (simp add: x m q0 r0 a_def b_def)
  have a0: "0 \<le> a" and b0: "0 \<le> b" using A(1) B(1) h(2) by linarith+
  have lo: "pow2 (- 1074) \<le> a * b"
  proof -
    have "pow2 (- 537) * pow2 (- 537) \<le> a * b"
      using A(1) B(1) h(2) by (intro mult_mono) simp_all
    then show ?thesis by (simp only: pow2_537)
  qed
  have hi: "a * b \<le> 1 - pow2 (- 53)"
  proof -
    have "a * b \<le> (1 - pow2 (- 53)) * 1"
      using A(2) B(2) a0 b0 h(1) by (intro mult_mono) simp_all
    then show ?thesis by simp
  qed
  have ab0: "0 \<le> a * b" using a0 b0 by simp
  from rnd_positive [OF lo, of False] rnd_below_one [OF ab0 hi, of False]
  obtain v where v: "rnd False (a * b) = Fin False v" "0 < v" "v \<le> 1 - pow2 (- 53)"
    by auto
  have "v < 1" using v(3) h(1) by linarith
  then show ?thesis
    using v(1,2) rnd_is_f64 [OF ab0, of False]
    by (simp add: prod fgt_def lit_0 lit_1 sval_def)
qed

lemma newton_step_inside:
  assumes "is_f64 x" and "fgt x (lit 0)" and "flt x (lit 1)"
    and "is_f64 m" and "fgt m (lit 0)" and "flt m (lit 1)"
    and "newton_step \<alpha> \<beta> m x dP phi = (s0, x')"
  shows "is_f64 x' \<and> fgt x' (lit 0) \<and> flt x' (lit 1)"
proof -
  obtain step where
    x': "x' = (if fgt (fadd x step) (lit 0) \<and> flt (fadd x step) (lit 1) then fadd x step
               else fmul (fsqrt x) (fsqrt m))"
    using assms(7) [symmetric] unfolding newton_step_def Let_def by blast
  show ?thesis
    unfolding x' using sqrt_product_inside [OF assms(1-6)] fadd_is_f64 [of x step] by simp
qed

lemma refine_inside:
  "is_f64 x \<Longrightarrow> fgt x (lit 0) \<Longrightarrow> flt x (lit 1) \<Longrightarrow>
   is_f64 m \<Longrightarrow> fgt m (lit 0) \<Longrightarrow> flt m (lit 1) \<Longrightarrow>
   (\<forall>y \<in> set (fst (refine E \<alpha> \<beta> p m x step0 n)). is_f64 y \<and> fgt y (lit 0) \<and> flt y (lit 1)) \<and>
   (\<forall>r. snd (refine E \<alpha> \<beta> p m x step0 n) = Inr r \<longrightarrow>
        r = lit 999 \<or> r \<in> set (fst (refine E \<alpha> \<beta> p m x step0 n)))"
proof (induction E \<alpha> \<beta> p m x step0 n rule: refine.induct)
  case (1 E \<alpha> \<beta> p m x step0 n)
  note x = "1.prems"(1,2,3) and m = "1.prems"(4,5,6)
  show ?case
  proof (cases "fgt (fabs step0) (fmul (lit (1 / 10 ^ 11)) x)")
    case False
    then show ?thesis using x by (subst (1 2 3) refine.simps) simp
  next
    case enter: True
    show ?thesis
    proof (cases "Beta_CDF_At E \<alpha> \<beta> x")
      case (Inl e)
      then show ?thesis using enter x by (subst (1 2 3) refine.simps) simp
    next
      case (Inr cdf)
      show ?thesis
      proof (cases "feq (fsub p cdf) (lit 0) \<or> 64 < n")
        case True
        then show ?thesis using enter Inr x by (subst (1 2 3) refine.simps) auto
      next
        case go: False
        obtain s0 x' where
          st: "newton_step \<alpha> \<beta> m x (fsub p cdf) (Beta_PDF_At E \<alpha> \<beta> x) = (s0, x')"
          by (cases "newton_step \<alpha> \<beta> m x (fsub p cdf) (Beta_PDF_At E \<alpha> \<beta> x)")
        note x' = newton_step_inside [OF x m st]
        show ?thesis
        proof (cases "fgt (fabs (fsub p cdf)) (fmul tol p)")
          case True
          then show ?thesis using enter Inr go st x x'
            by (subst (1 2 3) refine.simps) simp
        next
          case False
          have ih: "(\<forall>y \<in> set (fst (refine E \<alpha> \<beta> p m x' s0 (Suc n))).
                       is_f64 y \<and> fgt y (lit 0) \<and> flt y (lit 1)) \<and>
                    (\<forall>r. snd (refine E \<alpha> \<beta> p m x' s0 (Suc n)) = Inr r \<longrightarrow>
                       r = lit 999 \<or> r \<in> set (fst (refine E \<alpha> \<beta> p m x' s0 (Suc n))))"
            using "1.IH" [OF enter Inr go st [symmetric] False] x' m by blast
          show ?thesis using enter Inr go st False x ih
            by (subst (1 2 3) refine.simps) (auto simp: split_beta)
        qed
      qed
    qed
  qed
qed

lemma newton_step_cases:
  assumes "newton_step \<alpha> \<beta> m x dP phi = (s0, x')"
  shows "x' = fmul (fsqrt x) (fsqrt m) \<or>
         (\<exists>step. x' = fadd x step \<and> fgt (fadd x step) (lit 0) \<and> flt (fadd x step) (lit 1))"
proof -
  obtain step where
    x': "x' = (if fgt (fadd x step) (lit 0) \<and> flt (fadd x step) (lit 1) then fadd x step
               else fmul (fsqrt x) (fsqrt m))"
    using assms [symmetric] unfolding newton_step_def Let_def by blast
  show ?thesis
  proof (cases "fgt (fadd x step) (lit 0) \<and> flt (fadd x step) (lit 1)")
    case True
    then show ?thesis using x' by auto
  next
    case False
    then show ?thesis using x' by auto
  qed
qed

text \<open>A run of the loop: Beta(1,1), \<open>p = 1/4\<close>, from the mean \<open>1/2\<close>.\<close>

lemma newton_steps:
  "fsub (Fin False (1 / 4)) (Fin False (1 / 2)) = Fin True (1 / 4)"
  "fdiv (Fin True (1 / 4)) (Fin False (1 / 2)) = Fin True (1 / 2)"
  "fdiv (Fin False 0) (Fin False (1 / 2)) = Fin False 0"
  "fsub (Fin False 0) (Fin False 0) = Fin False 0"
  "fmul (Fin True 0) (Fin True (1 / 4)) = Fin False 0"
  "fmul (Fin False 0) (Fin True (1 / 4)) = Fin True 0"
  "fdiv (Fin True 0) (Fin False 2) = Fin True 0"
  "fadd (Fin True (1 / 4)) (Fin True 0) = Fin True (1 / 4)"
  "fadd (Fin False (1 / 2)) (Fin True (1 / 4)) = Fin False (1 / 4)"
  by code_simp+

lemma fmax_1_1: "fmax (Fin False 1) (Fin False 1) = Fin False 1"
  by (simp add: fmax_def fgt_def sval_def)

lemma newton_step_uniform:
  "newton_step (lit 1) (lit 1) (lit (1 / 2)) (lit (1 / 2)) (Fin True (1 / 4)) (lit 1)
     = (Fin True (1 / 4), lit (1 / 4))"
  by (simp add: newton_step_def Let_def lits newton_steps cf_steps sub_1_1 fmax_1_1 fgt_def sval_def
      del: fadd.simps fmul.simps fdiv.simps)

lemma refine_uniform_run:
  "refine uniform_env (lit 1) (lit 1) (lit (1 / 4)) (lit (1 / 2)) (lit (1 / 2)) (lit 999999) 0
     = ([lit (1 / 2), lit (1 / 4)], Inr (lit 999))"
proof -
  have pdf: "Beta_PDF_At uniform_env (lit 1) (lit 1) (lit (1 / 2)) = lit 1"
    by (simp add: Beta_PDF_At_def uniform_env_def lits sval_def)
  have dP: "fsub (lit (1 / 4)) (lit (1 / 2)) = Fin True (1 / 4)"
    by (simp only: lits newton_steps)
  have nz: "\<not> feq (Fin True (1 / 4)) (lit 0)" by (simp add: lits sval_def)
  have far: "fgt (fabs (Fin True (1 / 4))) (fmul tol (lit (1 / 4)))"
    by (simp add: lits tol_quarter fgt_def sval_def)
  have enter: "fgt (fabs (lit 999999)) (fmul (lit (1 / 10 ^ 11)) (lit (1 / 2)))"
    using loop_entered(2) by (simp only: lits)
  show ?thesis
    by (subst refine.simps)
      (simp only: enter cdf_uniform_half dP pdf nz far newton_step_uniform if_True if_False
        sum.case prod.case simp_thms not_less_zero less_nat_zero_code)
qed

text \<open>
  C9. The refinement loop of \<^verbatim>\<open>cdf_beta_Pinv\<close> keeps the iterate \<^verbatim>\<open>x\<close> strictly inside \<open>(0,1)\<close>
  until the sentinel is assigned. Started from a float64 \<open>x\<close> in \<open>(0,1)\<close> with a float64
  \<open>mean\<close> in \<open>(0,1)\<close>: every value \<^verbatim>\<open>x\<close> takes lies in \<open>(0,1)\<close>; a returned number is one of
  them or the sentinel \<open>999.0\<close>; and in one pass the new \<^verbatim>\<open>x\<close> is \<open>x + step\<close> only when
  \<open>0 < x + step < 1\<close>, otherwise \<open>sqrt(x) \<sqdot> sqrt(mean)\<close>, which lies in \<open>(0,1)\<close> again.
\<close>

theorem refine_iterates_inside:
  assumes "is_f64 x" and "fgt x (lit 0)" and "flt x (lit 1)"
    and "is_f64 mean" and "fgt mean (lit 0)" and "flt mean (lit 1)"
  shows "(\<forall>y \<in> set (fst (refine E \<alpha> \<beta> p mean x step0 n)). fgt y (lit 0) \<and> flt y (lit 1)) \<and>
         (\<forall>r. snd (refine E \<alpha> \<beta> p mean x step0 n) = Inr r \<longrightarrow>
              r = lit 999 \<or> (fgt r (lit 0) \<and> flt r (lit 1))) \<and>
         (\<forall>s0 x'. newton_step \<alpha> \<beta> mean x dP phi = (s0, x') \<longrightarrow>
              fgt x' (lit 0) \<and> flt x' (lit 1) \<and>
              (x' = fmul (fsqrt x) (fsqrt mean) \<or>
               (\<exists>step. x' = fadd x step \<and> fgt (fadd x step) (lit 0) \<and> flt (fadd x step) (lit 1))))"
proof (intro conjI allI impI)
  note inv = refine_inside [OF assms, of E \<alpha> \<beta> p step0 n]
  show "\<forall>y \<in> set (fst (refine E \<alpha> \<beta> p mean x step0 n)). fgt y (lit 0) \<and> flt y (lit 1)"
    using inv by blast
  show "r = lit 999 \<or> (fgt r (lit 0) \<and> flt r (lit 1))"
    if "snd (refine E \<alpha> \<beta> p mean x step0 n) = Inr r" for r
    using inv that by blast
  show "fgt x' (lit 0)" and "flt x' (lit 1)"
    if "newton_step \<alpha> \<beta> mean x dP phi = (s0, x')" for s0 x'
    using newton_step_inside [OF assms that] by simp_all
  show "x' = fmul (fsqrt x) (fsqrt mean) \<or>
        (\<exists>step. x' = fadd x step \<and> fgt (fadd x step) (lit 0) \<and> flt (fadd x step) (lit 1))"
    if "newton_step \<alpha> \<beta> mean x dP phi = (s0, x')" for s0 x'
    using that by (rule newton_step_cases)
qed

lemma half_is_f64: "is_f64 (lit (1 / 2))" by code_simp

lemma half_inside: "fgt (lit (1 / 2)) (lit 0)" "flt (lit (1 / 2)) (lit 1)"
  by (simp_all add: lits fgt_def sval_def)

theorem refine_iterates_inside_witness:
  "is_f64 (lit (1 / 2)) \<and> fgt (lit (1 / 2)) (lit 0) \<and> flt (lit (1 / 2)) (lit 1) \<and>
   fst (refine uniform_env (lit 1) (lit 1) (lit (1 / 4)) (lit (1 / 2)) (lit (1 / 2)) (lit 999999) 0)
     = [lit (1 / 2), lit (1 / 4)] \<and>
   fgt (lit (1 / 4)) (lit 0) \<and> flt (lit (1 / 4)) (lit 1)"
  using refine_iterates_inside [OF half_is_f64 half_inside half_is_f64 half_inside,
      of uniform_env "lit 1" "lit 1" "lit (1 / 4)" "lit 999999" 0]
    half_is_f64 half_inside
  by (simp add: refine_uniform_run)

end
